theory Spec2Isabelle
  imports Complex_Main
begin

section \<open>Integers of the requester package\<close>

text \<open>
  The counters \<open>N\<close>, \<open>C\<close>, \<open>i\<close>, \<open>n\<close> and \<open>left\<close> of
  \<^verbatim>\<open>requester.go\<close> have Go's type \<^verbatim>\<open>int\<close>, taken here as the 64-bit
  two's-complement integer of the usual targets. They are modelled by \<open>int\<close>;
  \<open>int64\<close> is the wrap-around of a result that may leave the range.
\<close>

definition int64 :: "int \<Rightarrow> int" where
  "int64 x = signed_take_bit 63 x"

text \<open>Go's \<^verbatim>\<open>/\<close> on integers truncates towards zero.\<close>

definition quot :: "int \<Rightarrow> int \<Rightarrow> int" where
  "quot a b = (if (a < 0) = (b < 0) then \<bar>a\<bar> div \<bar>b\<bar> else - (\<bar>a\<bar> div \<bar>b\<bar>))"

text \<open>\<^verbatim>\<open>func min(a, b int) int\<close>\<close>

definition min_go :: "int \<Rightarrow> int \<Rightarrow> int" where
  "min_go a b = (if a < b then a else b)"

text \<open>\<^verbatim>\<open>const maxResult = 32000000\<close>, \<^verbatim>\<open>const maxIdleConn = 500\<close>\<close>

definition maxResult :: int where
  "maxResult = 32000000"

definition maxIdleConn :: int where
  "maxIdleConn = 500"

section \<open>The distribution of the requests over the workers\<close>

text \<open>
  The loop of \<^verbatim>\<open>runWorkers\<close>:
  \<^verbatim>\<open>
  left := b.N
  for i := 0; i < b.C-1; i++ {
      n := left / (b.C - i)
      left = left - n
      go func(n int) { b.runWorker(ctx, client, n); wg.Done() }(n)
  }
  go func(n int) { b.runWorker(ctx, client, n); wg.Done() }(left)
  \<close>
  \<open>share C i left\<close> is the \<open>n\<close> of iteration \<open>i\<close>; \<open>shares_from C i left\<close> lists,
  in the order of the \<^verbatim>\<open>go\<close> statements, the \<open>n\<close> handed to every worker
  started from iteration \<open>i\<close> on, the last one included.
\<close>

definition share :: "int \<Rightarrow> int \<Rightarrow> int \<Rightarrow> int" where
  "share C i left = quot left (C - i)"

function shares_from :: "int \<Rightarrow> int \<Rightarrow> int \<Rightarrow> int list" where
  "shares_from C i left =
     (if i < C - 1
      then share C i left # shares_from C (i + 1) (left - share C i left)
      else [left])"
  by pat_completeness auto
termination
  by (relation "measure (\<lambda>(C, i, left). nat (C - 1 - i))") auto

definition shares :: "int \<Rightarrow> int \<Rightarrow> int list" where
  "shares C N = shares_from C 0 N"

section \<open>Data of the package\<close>

text \<open>
  \<^verbatim>\<open>time.Duration\<close> counts nanoseconds in an \<^verbatim>\<open>int64\<close>. The Go \<^verbatim>\<open>error\<close> of
  a failed request is kept as its message; \<open>None\<close> is \<^verbatim>\<open>nil\<close>.
\<close>

type_synonym duration = int

definition Microsecond :: duration where
  "Microsecond = 1000"

definition Second :: duration where
  "Second = 1000000000"

text \<open>\<^verbatim>\<open>type result struct\<close>\<close>

record result =
  err :: "string option"
  statusCode :: int
  offset :: duration
  duration :: duration
  connDuration :: duration
  dnsDuration :: duration
  reqDuration :: duration
  resDuration :: duration
  delayDuration :: duration
  contentLength :: int

text \<open>
  Objects that are reached through pointers and may be shared live in a heap: the
  readers behind \<^verbatim>\<open>Request.Body\<close> (the bytes and the read position) and the maps behind
  \<^verbatim>\<open>Request.Header\<close>. An address is an index of the heap; allocation appends, so the
  address of a new object is the length of the heap before.
\<close>

datatype obj = Reader string nat | HeaderMap "(string \<times> string list) list"

type_synonym heap = "obj list"

definition heap_get :: "heap \<Rightarrow> nat \<Rightarrow> obj option" where
  "heap_get h a = (if a < length h then Some (h ! a) else None)"

text \<open>The fields of \<^verbatim>\<open>http.Request\<close> that the package reads or writes.\<close>

record http_request =
  Method :: string
  URL :: string
  Host :: string
  Header :: "nat option"
  Body :: "nat option"

text \<open>\<^verbatim>\<open>chan *result\<close>: the capacity given to \<^verbatim>\<open>make\<close>, the buffered values, and whether
  \<^verbatim>\<open>close\<close> was called.\<close>

record chan =
  cap :: nat
  buf :: "result list"
  closed :: bool

text \<open>
  Modelled from the spec: the type \<^verbatim>\<open>report\<close> with \<^verbatim>\<open>newReport\<close>, \<^verbatim>\<open>runReporter\<close>,
  the channel \<^verbatim>\<open>done\<close> and \<^verbatim>\<open>finalize\<close> belong to the package but not to
  \<^verbatim>\<open>requester.go\<close>. The spec (sections 2 and 6) says that the reporter drains the sink
  until it is closed, then sets its completion signal, and that it is handed the total
  duration at finalization. \<open>consumed\<close> are the results received so far, \<open>done_ch\<close> the
  completion signal, \<open>finalized\<close> the total passed to \<^verbatim>\<open>finalize\<close>.
\<close>

record reporter =
  consumed :: "result list"
  done_ch :: bool
  finalized :: "duration option"

text \<open>
  \<^verbatim>\<open>type Work struct\<close>. The fields \<^verbatim>\<open>N\<close>, \<^verbatim>\<open>C\<close> and \<^verbatim>\<open>K\<close> are \<open>jobN\<close>, \<open>jobC\<close>
  and \<open>jobK\<close>. \<^verbatim>\<open>RequestFunc\<close> may allocate, so it maps a heap to the request it
  returns (\<open>None\<close> is a \<^verbatim>\<open>nil\<close> request) and the new heap. \<^verbatim>\<open>QPS\<close> is a
  \<^verbatim>\<open>float64\<close>: it is modelled by a real number, so neither the rounding of a quotient
  nor the values NaN and infinity are modelled. \<open>initOnce\<close> is the \<^verbatim>\<open>done\<close> flag of the
  \<^verbatim>\<open>sync.Once\<close>. \<open>made\<close> is auxiliary: it counts the executions of
  \<^verbatim>\<open>make(chan *result, ...)\<close>.
\<close>

record work =
  Request :: "http_request option"
  RequestBody :: string
  RequestFunc :: "(heap \<Rightarrow> http_request option \<times> heap) option"
  jobN :: int
  jobC :: int
  jobK :: bool
  H2 :: bool
  TLSResume :: bool
  Timeout :: int
  QPS :: real
  DisableCompression :: bool
  DisableKeepAlives :: bool
  DisableRedirects :: bool
  Output :: string
  ProxyAddr :: "string option"
  initOnce :: bool
  results :: "chan option"
  start :: duration
  report :: "reporter option"
  made :: nat

text \<open>The run-time panics that the statements of the package can raise.\<close>

datatype panic =
    MakeChanSize
  | NilPointer
  | NegativeWaitGroup
  | CloseNilChan
  | CloseClosedChan
  | SendClosedChan

section \<open>\<^verbatim>\<open>Init\<close>\<close>

text \<open>
  \<^verbatim>\<open>
  func (b *Work) Init() {
      b.initOnce.Do(func() {
          b.results = make(chan *result, min(b.C*1000, maxResult))
      })
  }
  \<close>
  \<^verbatim>\<open>b.C*1000\<close> wraps around in 64 bits. \<^verbatim>\<open>make\<close> panics on a negative size, and
  \<^verbatim>\<open>sync.Once\<close> counts a call that panicked as done. The result is the \<^verbatim>\<open>Work\<close>
  after the call and the panic that left it, if any.
\<close>

definition Init :: "work \<Rightarrow> work \<times> panic option" where
  "Init w =
     (if initOnce w then (w, None)
      else
        (let size = min_go (int64 (jobC w * 1000)) maxResult in
         if size < 0 then (w\<lparr>initOnce := True\<rparr>, Some MakeChanSize)
         else (w\<lparr>initOnce := True,
                  results := Some \<lparr>cap = nat size, buf = [], closed = False\<rparr>,
                  made := made w + 1\<rparr>, None)))"

text \<open>\<open>Init_times k w\<close>: the \<^verbatim>\<open>Work\<close> after \<open>k\<close> calls of \<^verbatim>\<open>Init\<close>, a caller recovering
  from a panic included.\<close>

fun Init_times :: "nat \<Rightarrow> work \<Rightarrow> work" where
  "Init_times 0 w = w"
| "Init_times (Suc k) w = Init_times k (fst (Init w))"

section \<open>\<^verbatim>\<open>cloneRequest\<close>\<close>

text \<open>
  \<^verbatim>\<open>
  func cloneRequest(r *http.Request, body []byte) *http.Request {
      r2 := new(http.Request)
      *r2 = *r
      r2.Header = make(http.Header, len(r.Header))
      for k, s := range r.Header {
          r2.Header[k] = append([]string(nil), s...)
      }
      if len(body) > 0 {
          r2.Body = ioutil.NopCloser(bytes.NewReader(body))
      }
      return r2
  }
  \<close>
  The struct copy copies the addresses in \<open>Header\<close> and \<open>Body\<close>. The header map of
  the clone is a new object with the same entries (a \<^verbatim>\<open>nil\<close> map has none); the
  reader is a new object at position 0.
\<close>

definition header_entries :: "heap \<Rightarrow> nat option \<Rightarrow> (string \<times> string list) list" where
  "header_entries h a =
     (case a of None \<Rightarrow> []
      | Some x \<Rightarrow> (case heap_get h x of Some (HeaderMap m) \<Rightarrow> m | _ \<Rightarrow> []))"

definition cloneRequest :: "heap \<Rightarrow> http_request \<Rightarrow> string \<Rightarrow> http_request \<times> heap" where
  "cloneRequest h r body =
     (let r2 = r;
          h1 = h @ [HeaderMap (map (\<lambda>(k, s). (k, [] @ s)) (header_entries h (Header r)))];
          r2 = r2\<lparr>Header := Some (length h)\<rparr>
      in if length body > 0
         then (r2\<lparr>Body := Some (length h1)\<rparr>, h1 @ [Reader body 0])
         else (r2, h1))"

section \<open>\<^verbatim>\<open>makeRequest\<close>\<close>

text \<open>
  The function \<^verbatim>\<open>now\<close> is called by \<^verbatim>\<open>requester.go\<close> and defined elsewhere in the
  package; it returns a \<^verbatim>\<open>time.Duration\<close>. Every value it returns is an input of the
  model: the reading is carried by the step that makes the call.

  The first lines of \<^verbatim>\<open>makeRequest\<close> obtain the request:
  \<^verbatim>\<open>
  if b.RequestFunc != nil {
      req = b.RequestFunc()
  } else {
      req = cloneRequest(b.Request, b.RequestBody)
  }
  \<close>
  \<^verbatim>\<open>cloneRequest\<close> dereferences \<^verbatim>\<open>b.Request\<close>, and \<^verbatim>\<open>req.Context()\<close>, a few lines
  below, dereferences \<^verbatim>\<open>req\<close>: each panics on \<^verbatim>\<open>nil\<close>.
\<close>

definition new_request :: "work \<Rightarrow> heap \<Rightarrow> panic + http_request \<times> heap" where
  "new_request w h =
     (case RequestFunc w of
        Some f \<Rightarrow> (case f h of (None, h') \<Rightarrow> Inl NilPointer | (Some req, h') \<Rightarrow> Inr (req, h'))
      | None \<Rightarrow> (case Request w of None \<Rightarrow> Inl NilPointer
                 | Some r \<Rightarrow> Inr (cloneRequest h r (RequestBody w))))"

text \<open>
  The hooks of the \<^verbatim>\<open>httptrace.ClientTrace\<close> run while \<^verbatim>\<open>c.Do(req)\<close> executes. A
  \<open>hook_call\<close> is one call of a hook together with the readings of \<^verbatim>\<open>now\<close> made in
  it. \<^verbatim>\<open>GotConn\<close> reads the clock for \<^verbatim>\<open>connDuration\<close> only when the connection is
  not reused (its first reading is then unused), and once more for \<^verbatim>\<open>reqStart\<close>.
  \<open>locals\<close> are the variables of \<^verbatim>\<open>makeRequest\<close> that the hooks assign; the
  durations among them carry the suffix \<open>_v\<close>. All start at zero.
\<close>

datatype hook_call =
    DNSStart duration
  | DNSDone duration
  | GetConn duration
  | GotConn bool duration duration
  | WroteRequest duration
  | GotFirstResponseByte duration

record locals =
  dnsStart :: duration
  connStart :: duration
  resStart :: duration
  reqStart :: duration
  delayStart :: duration
  dnsDuration_v :: duration
  connDuration_v :: duration
  reqDuration_v :: duration
  delayDuration_v :: duration

definition locals0 :: locals where
  "locals0 = \<lparr>dnsStart = 0, connStart = 0, resStart = 0, reqStart = 0, delayStart = 0,
     dnsDuration_v = 0, connDuration_v = 0, reqDuration_v = 0, delayDuration_v = 0\<rparr>"

fun hook :: "locals \<Rightarrow> hook_call \<Rightarrow> locals" where
  "hook v (DNSStart t) = v\<lparr>dnsStart := t\<rparr>"
| "hook v (DNSDone t) = v\<lparr>dnsDuration_v := t - dnsStart v\<rparr>"
| "hook v (GetConn t) = v\<lparr>connStart := t\<rparr>"
| "hook v (GotConn reused t1 t2) =
     (if \<not> reused then v\<lparr>connDuration_v := t1 - connStart v\<rparr> else v)\<lparr>reqStart := t2\<rparr>"
| "hook v (WroteRequest t) = v\<lparr>reqDuration_v := t - reqStart v, delayStart := t\<rparr>"
| "hook v (GotFirstResponseByte t) = v\<lparr>delayDuration_v := t - delayStart v, resStart := t\<rparr>"

text \<open>
  What \<^verbatim>\<open>c.Do(req)\<close> returns: a response, of which the code uses \<^verbatim>\<open>StatusCode\<close> and
  the number of bytes that \<^verbatim>\<open>io.Copy\<close> reads from the body, or an error.
\<close>

datatype do_result = Resp int int | Err string

text \<open>
  \<^verbatim>\<open>
  s := now()
  resp, err := c.Do(req)
  if err == nil {
      code = resp.StatusCode
      size, _ = io.Copy(ioutil.Discard, resp.Body)
      resp.Body.Close()
  }
  t := now()
  resDuration = t - resStart
  finish := t - s
  b.results <- &result{offset: s, statusCode: code, duration: finish, err: err,
      contentLength: size, connDuration: connDuration, dnsDuration: dnsDuration,
      reqDuration: reqDuration, resDuration: resDuration, delayDuration: delayDuration}
  \<close>
  \<open>build_result s hooks r t\<close> is the value sent, for the reading \<open>s\<close>, the hook calls
  made during \<^verbatim>\<open>c.Do\<close>, its outcome \<open>r\<close> and the reading \<open>t\<close>.
\<close>

definition build_result :: "duration \<Rightarrow> hook_call list \<Rightarrow> do_result \<Rightarrow> duration \<Rightarrow> result" where
  "build_result s hooks r t =
     (let v = foldl hook locals0 hooks;
          code = (case r of Resp c sz \<Rightarrow> c | Err e \<Rightarrow> 0);
          size = (case r of Resp c sz \<Rightarrow> sz | Err e \<Rightarrow> 0);
          resDuration_v = t - resStart v;
          finish = t - s
      in \<lparr>err = (case r of Resp c sz \<Rightarrow> None | Err e \<Rightarrow> Some e),
          statusCode = code,
          offset = s,
          duration = finish,
          connDuration = connDuration_v v,
          dnsDuration = dnsDuration_v v,
          reqDuration = reqDuration_v v,
          resDuration = resDuration_v,
          delayDuration = delayDuration_v v,
          contentLength = size\<rparr>)"

section \<open>The rate limiter of a worker\<close>

text \<open>
  \<^verbatim>\<open>
  var throttle <-chan time.Time
  if b.QPS > 0 {
      throttle = time.Tick(time.Duration(1e6/(b.QPS)) * time.Microsecond)
  }
  \<close>
  The conversion of a \<^verbatim>\<open>float64\<close> to \<^verbatim>\<open>time.Duration\<close> drops the fraction; where the
  value does not fit 64 bits, Go leaves the result to the implementation, and the model
  takes it as the input \<open>impl\<close>. The product with \<^verbatim>\<open>time.Microsecond\<close> wraps around.
  \<^verbatim>\<open>time.Tick\<close> of the standard library returns \<^verbatim>\<open>nil\<close> for a duration that is not
  positive, and a channel ticking with period \<open>d\<close> otherwise; the model keeps the
  period of the ticker, \<open>None\<close> for the \<^verbatim>\<open>nil\<close> channel.
\<close>

definition float_trunc :: "real \<Rightarrow> int" where
  "float_trunc x = (if 0 \<le> x then \<lfloor>x\<rfloor> else \<lceil>x\<rceil>)"

definition Duration_of_float :: "int \<Rightarrow> real \<Rightarrow> duration" where
  "Duration_of_float impl x =
     (if - (2 ^ 63) \<le> float_trunc x \<and> float_trunc x < 2 ^ 63 then float_trunc x else impl)"

definition Tick :: "duration \<Rightarrow> duration option" where
  "Tick d = (if d \<le> 0 then None else Some d)"

definition new_throttle :: "real \<Rightarrow> int \<Rightarrow> duration option" where
  "new_throttle qps impl =
     (if qps > 0 then Tick (int64 (Duration_of_float impl (1000000 / qps) * Microsecond))
      else None)"

section \<open>The shared client\<close>

text \<open>
  \<^verbatim>\<open>runWorkers\<close> builds one \<^verbatim>\<open>http.Transport\<close> and one \<^verbatim>\<open>http.Client\<close>. The fields that
  the package sets are kept; those of the transport that share a name with a field of
  \<^verbatim>\<open>Work\<close> carry the suffix \<open>_tr\<close>, and \<^verbatim>\<open>Timeout\<close> of the client is \<open>Timeout_cl\<close>.
  \<open>ClientSessionCache\<close> is the capacity of the LRU cache, \<open>HTTP2\<close> records
  \<^verbatim>\<open>http2.ConfigureTransport(tr)\<close>, and \<open>TLSNextProto_empty\<close> the assignment of the
  empty map. \<open>CheckRedirect\<close> is \<^verbatim>\<open>nil\<close> or the function that returns
  \<^verbatim>\<open>http.ErrUseLastResponse\<close>.
\<close>

record transport =
  InsecureSkipVerify :: bool
  ServerName :: string
  ClientSessionCache :: "nat option"
  MaxIdleConnsPerHost :: int
  DisableCompression_tr :: bool
  DisableKeepAlives_tr :: bool
  Proxy :: "string option"
  HTTP2 :: bool
  TLSNextProto_empty :: bool

datatype redirect_policy = UseLastResponse

record client =
  Transport :: transport
  Timeout_cl :: duration
  CheckRedirect :: "redirect_policy option"

text \<open>
  \<^verbatim>\<open>
  hostName, _, err := net.SplitHostPort(b.Request.Host)
  if err != nil {
      hostName = b.Request.Host
  }
  \<close>
  and the lines up to \<^verbatim>\<open>client := &http.Client{...}\<close>. The result of
  \<^verbatim>\<open>net.SplitHostPort\<close> is the input \<open>split\<close>: the host and the port, or \<open>None\<close> for
  an error.
\<close>

definition new_client :: "work \<Rightarrow> string \<Rightarrow> (string \<times> string) option \<Rightarrow> client" where
  "new_client w host split =
     (let hostName = (case split of Some (h, p) \<Rightarrow> h | None \<Rightarrow> host);
          tlsCache = (if TLSResume w then Some 1 else None);
          tr = \<lparr>InsecureSkipVerify = jobK w,
                ServerName = hostName,
                ClientSessionCache = tlsCache,
                MaxIdleConnsPerHost = min_go (jobC w) maxIdleConn,
                DisableCompression_tr = DisableCompression w,
                DisableKeepAlives_tr = DisableKeepAlives w,
                Proxy = ProxyAddr w,
                HTTP2 = H2 w,
                TLSNextProto_empty = (\<not> H2 w)\<rparr>
      in \<lparr>Transport = tr, Timeout_cl = int64 (Timeout w * Second), CheckRedirect = None\<rparr>)"

section \<open>The goroutines of a run\<close>

text \<open>
  \<^verbatim>\<open>Run\<close> starts the reporter and, in \<^verbatim>\<open>runWorkers\<close>, the workers; all of them run
  concurrently with \<^verbatim>\<open>Run\<close> itself. The model is an interleaving of atomic steps.
  Each goroutine has a program counter; a step of the model executes the statements
  between two of its values.

  The program counter of a worker (\<^verbatim>\<open>runWorker\<close> followed by \<^verbatim>\<open>wg.Done()\<close>):
  \<^item> \<open>WInit\<close>: at the head of \<^verbatim>\<open>runWorker\<close>, before \<^verbatim>\<open>throttle\<close> is set;
  \<^item> \<open>WRedirect\<close>: before \<^verbatim>\<open>if b.DisableRedirects\<close>;
  \<^item> \<open>WLoop\<close>: at the test \<^verbatim>\<open>i < n\<close> of the loop, followed by the \<^verbatim>\<open>select\<close>;
  \<^item> \<open>WGate\<close>: in the \<^verbatim>\<open>default\<close> branch with \<^verbatim>\<open>b.QPS > 0\<close>, before \<^verbatim>\<open><-throttle\<close>;
  \<^item> \<open>WReq\<close>: before the call of \<^verbatim>\<open>makeRequest\<close>;
  \<^item> \<open>WDo s req\<close>: in \<^verbatim>\<open>makeRequest\<close>, after \<^verbatim>\<open>s := now()\<close>, while \<^verbatim>\<open>c.Do(req)\<close> executes;
  \<^item> \<open>WSend r\<close>: before the send of \<open>r\<close> on \<^verbatim>\<open>b.results\<close>;
  \<^item> \<open>WRet\<close>: \<^verbatim>\<open>runWorker\<close> has returned, before \<^verbatim>\<open>wg.Done()\<close>;
  \<^item> \<open>WExit\<close>: the goroutine has ended.
\<close>

datatype wpc =
    WInit
  | WRedirect
  | WLoop
  | WGate
  | WReq
  | WDo duration http_request
  | WSend result
  | WRet
  | WExit

text \<open>
  The variables of a worker: the parameter \<^verbatim>\<open>n\<close> (\<open>wn\<close>), the loop counter \<^verbatim>\<open>i\<close>
  (\<open>wi\<close>), \<^verbatim>\<open>throttle\<close> and the program counter. \<open>calls\<close> is auxiliary: the number of
  calls of \<^verbatim>\<open>makeRequest\<close> the worker has made.
\<close>

record worker =
  wn :: int
  wi :: int
  throttle :: "duration option"
  pc :: wpc
  calls :: nat

definition new_worker :: "int \<Rightarrow> worker" where
  "new_worker n = \<lparr>wn = n, wi = 0, throttle = None, pc = WInit, calls = 0\<rparr>"

text \<open>
  The program counter of \<^verbatim>\<open>Run\<close>, through \<^verbatim>\<open>runWorkers\<close> and \<^verbatim>\<open>finish\<close>:
  \<^item> \<open>CBegin\<close>: before \<^verbatim>\<open>b.Init()\<close> (the context \<^verbatim>\<open>sctx\<close> and the spinner before it
    touch nothing of the package);
  \<^item> \<open>CStart\<close>: before \<^verbatim>\<open>b.start = now()\<close>;
  \<^item> \<open>CReport\<close>: before \<^verbatim>\<open>b.report = newReport(...)\<close> and the \<^verbatim>\<open>go\<close> statement of the
    reporter;
  \<^item> \<open>CAdd\<close>: in \<^verbatim>\<open>runWorkers\<close>, before \<^verbatim>\<open>wg.Add(b.C)\<close>;
  \<^item> \<open>CClient\<close>: before \<^verbatim>\<open>net.SplitHostPort(b.Request.Host)\<close>, up to the creation of the
    client;
  \<^item> \<open>CSpawn i left\<close>: at the test \<^verbatim>\<open>i < b.C-1\<close> of the loop that starts the workers;
  \<^item> \<open>CWait\<close>: before \<^verbatim>\<open>wg.Wait()\<close>;
  \<^item> \<open>CClose\<close>: \<^verbatim>\<open>runWorkers\<close> has returned; after \<^verbatim>\<open>cancel()\<close> of \<^verbatim>\<open>sctx\<close>, in
    \<^verbatim>\<open>finish\<close> before \<^verbatim>\<open>close(b.results)\<close>;
  \<^item> \<open>CTotal\<close>: before \<^verbatim>\<open>total := now() - b.start\<close>;
  \<^item> \<open>CAwait total\<close>: before \<^verbatim>\<open><-b.report.done\<close>, followed by \<^verbatim>\<open>finalize(total)\<close>;
  \<^item> \<open>CFinished\<close>: \<^verbatim>\<open>Run\<close> has returned.
\<close>

datatype cpc =
    CBegin
  | CStart
  | CReport
  | CAdd
  | CClient
  | CSpawn int int
  | CWait
  | CClose
  | CTotal
  | CAwait duration
  | CFinished

text \<open>
  The state of a run: the \<^verbatim>\<open>Work\<close>, the heap, the client that \<^verbatim>\<open>runWorkers\<close> creates,
  the counter of the \<^verbatim>\<open>sync.WaitGroup\<close>, the workers in the order of their \<^verbatim>\<open>go\<close>
  statements, the program counter of \<^verbatim>\<open>Run\<close>, whether the reporter goroutine was
  started, whether the context \<^verbatim>\<open>ctx\<close> given to \<^verbatim>\<open>Run\<close> is cancelled, and the panic that
  ended the process, if any. \<open>sent\<close> and \<open>closes\<close> are auxiliary: the results whose
  send on \<^verbatim>\<open>b.results\<close> has completed, in order, and the number of executions of
  \<^verbatim>\<open>close(b.results)\<close>.
\<close>

record state =
  job :: work
  heap :: heap
  shared_client :: "client option"
  wg :: int
  workers :: "worker list"
  ctrl :: cpc
  reporter_running :: bool
  cancelled :: bool
  crashed :: "panic option"
  sent :: "result list"
  closes :: nat

definition init :: "work \<Rightarrow> heap \<Rightarrow> state" where
  "init w h = \<lparr>job = w, heap = h, shared_client = None, wg = 0, workers = [],
     ctrl = CBegin, reporter_running = False, cancelled = False, crashed = None,
     sent = [], closes = 0\<rparr>"

text \<open>
  What a step takes from outside the package: nothing (\<open>Tau\<close>), a reading of
  \<^verbatim>\<open>now\<close>, the implementation's value for a conversion out of range, the result of
  \<^verbatim>\<open>net.SplitHostPort\<close>, or the return of \<^verbatim>\<open>c.Do\<close> with the hook calls made meanwhile
  and the reading of \<^verbatim>\<open>now\<close> that follows.
\<close>

datatype input =
    Tau
  | Now duration
  | Conv int
  | Split "(string \<times> string) option"
  | Returned "hook_call list" do_result duration

definition set_worker :: "nat \<Rightarrow> worker \<Rightarrow> state \<Rightarrow> state" where
  "set_worker k w s = s\<lparr>workers := (workers s)[k := w]\<rparr>"

definition panics :: "panic \<Rightarrow> state \<Rightarrow> state" where
  "panics p s = s\<lparr>crashed := Some p\<rparr>"

subsection \<open>The steps of a worker\<close>

text \<open>
  \<^verbatim>\<open>
  func (b *Work) runWorker(ctx context.Context, client *http.Client, n int) {
      var throttle <-chan time.Time
      if b.QPS > 0 {
          throttle = time.Tick(time.Duration(1e6/(b.QPS)) * time.Microsecond)
      }
      if b.DisableRedirects {
          client.CheckRedirect = func(req *http.Request, via []*http.Request) error {
              return http.ErrUseLastResponse
          }
      }
      for i := 0; i < n; i++ {
          select {
          case <-ctx.Done():
              return
          default:
              if b.QPS > 0 {
                  <-throttle
              }
              b.makeRequest(ctx, client)
          }
      }
  }
  \<close>
  \<open>worker_step p inp k w s\<close> is the step of worker \<open>k\<close>, whose variables are \<open>w\<close> and
  whose program counter is \<open>p\<close>, in the state \<open>s\<close>; \<open>None\<close> when the worker is blocked
  or the input is not the one its next statement takes.
  \<^item> A receive from the \<^verbatim>\<open>nil\<close> channel blocks for ever; a ticker delivers a tick at
    some time, and the model does not say when.
  \<^item> \<^verbatim>\<open>makeRequest\<close> does not use its parameter \<^verbatim>\<open>ctx\<close>, and \<^verbatim>\<open>c.Do\<close> is taken to
    return.
  \<^item> A send on a \<^verbatim>\<open>nil\<close> channel blocks for ever, a send on a closed channel panics, a
    send on a channel with room in its buffer completes, and a send on a channel
    without buffer completes when the receiver waits for it: the value then goes to
    the reporter at once.
  \<^item> \<^verbatim>\<open>wg.Done()\<close> panics when the counter becomes negative.
\<close>

definition send_result :: "result \<Rightarrow> state \<Rightarrow> state option option" where
  "send_result r s =
     (case results (job s) of
        None \<Rightarrow> None
      | Some ch \<Rightarrow>
          if closed ch then Some None
          else if length (buf ch) < cap ch
          then Some (Some (s\<lparr>job := (job s)\<lparr>results := Some (ch\<lparr>buf := buf ch @ [r]\<rparr>)\<rparr>,
                            sent := sent s @ [r]\<rparr>))
          else (case report (job s) of
                  Some rp \<Rightarrow>
                    if cap ch = 0 \<and> reporter_running s \<and> \<not> done_ch rp
                    then Some (Some (s\<lparr>job := (job s)\<lparr>report :=
                                             Some (rp\<lparr>consumed := consumed rp @ [r]\<rparr>)\<rparr>,
                                      sent := sent s @ [r]\<rparr>))
                    else None
                | None \<Rightarrow> None))"

definition worker_step :: "wpc \<Rightarrow> input \<Rightarrow> nat \<Rightarrow> worker \<Rightarrow> state \<Rightarrow> state option" where
  "worker_step p inp k w s =
     (case (p, inp) of
        (WInit, Conv v) \<Rightarrow>
          Some (set_worker k (w\<lparr>throttle := new_throttle (QPS (job s)) v, pc := WRedirect\<rparr>) s)
      | (WRedirect, Tau) \<Rightarrow>
          Some (set_worker k (w\<lparr>pc := WLoop\<rparr>)
            (if DisableRedirects (job s)
             then s\<lparr>shared_client :=
                      map_option (\<lambda>c. c\<lparr>CheckRedirect := Some UseLastResponse\<rparr>)
                        (shared_client s)\<rparr>
             else s))
      | (WLoop, Tau) \<Rightarrow>
          (if wi w < wn w
           then (if cancelled s then Some (set_worker k (w\<lparr>pc := WRet\<rparr>) s)
                 else if QPS (job s) > 0 then Some (set_worker k (w\<lparr>pc := WGate\<rparr>) s)
                 else Some (set_worker k (w\<lparr>pc := WReq\<rparr>) s))
           else Some (set_worker k (w\<lparr>pc := WRet\<rparr>) s))
      | (WGate, Tau) \<Rightarrow>
          (case throttle w of
             None \<Rightarrow> None
           | Some d \<Rightarrow> Some (set_worker k (w\<lparr>pc := WReq\<rparr>) s))
      | (WReq, Now t) \<Rightarrow>
          (case new_request (job s) (heap s) of
             Inl e \<Rightarrow> Some (panics e s)
           | Inr (req, h') \<Rightarrow>
               Some (set_worker k (w\<lparr>pc := WDo t req, calls := calls w + 1\<rparr>)
                 (s\<lparr>heap := h'\<rparr>)))
      | (WDo t0 req, Returned hooks r t) \<Rightarrow>
          Some (set_worker k (w\<lparr>pc := WSend (build_result t0 hooks r t)\<rparr>) s)
      | (WSend r, Tau) \<Rightarrow>
          (case send_result r s of
             None \<Rightarrow> None
           | Some None \<Rightarrow> Some (panics SendClosedChan s)
           | Some (Some s') \<Rightarrow> Some (set_worker k (w\<lparr>wi := wi w + 1, pc := WLoop\<rparr>) s'))
      | (WRet, Tau) \<Rightarrow>
          (if wg s - 1 < 0 then Some (panics NegativeWaitGroup (s\<lparr>wg := wg s - 1\<rparr>))
           else Some (set_worker k (w\<lparr>pc := WExit\<rparr>) (s\<lparr>wg := wg s - 1\<rparr>)))
      | _ \<Rightarrow> None)"

subsection \<open>The steps of the reporter\<close>

text \<open>
  Modelled from the spec: \<^verbatim>\<open>runReporter\<close> is not in \<^verbatim>\<open>requester.go\<close>. The reporter
  receives from the sink until the sink is closed and empty, then sets its completion
  signal. A receive from an empty channel that is not closed blocks.
\<close>

definition reporter_step :: "state \<Rightarrow> state option" where
  "reporter_step s =
     (if \<not> reporter_running s then None
      else case (report (job s), results (job s)) of
        (Some rp, Some ch) \<Rightarrow>
          if done_ch rp then None
          else (case buf ch of
                  r # rs \<Rightarrow> Some (s\<lparr>job := (job s)\<lparr>results := Some (ch\<lparr>buf := rs\<rparr>),
                             report := Some (rp\<lparr>consumed := consumed rp @ [r]\<rparr>)\<rparr>\<rparr>)
                | [] \<Rightarrow> if closed ch
                        then Some (s\<lparr>job := (job s)\<lparr>report := Some (rp\<lparr>done_ch := True\<rparr>)\<rparr>\<rparr>)
                        else None)
      | _ \<Rightarrow> None)"

subsection \<open>The steps of \<^verbatim>\<open>Run\<close>\<close>

text \<open>
  \<^verbatim>\<open>
  func (b *Work) Run(ctx context.Context) {
      ...
      b.Init()
      b.start = now()
      b.report = newReport(b.writer(), b.results, b.Output, b.N)
      go func() { runReporter(b.report) }()
      b.runWorkers(ctx)
      cancel()
      ...
      b.finish()
  }
  func (b *Work) finish() {
      close(b.results)
      total := now() - b.start
      <-b.report.done
      b.report.finalize(total)
  }
  \<close>
  with \<^verbatim>\<open>runWorkers\<close> in between:
  \<^verbatim>\<open>
  var wg sync.WaitGroup
  wg.Add(b.C)
  hostName, _, err := net.SplitHostPort(b.Request.Host)
  ...
  client := &http.Client{Transport: tr, Timeout: time.Duration(b.Timeout) * time.Second}
  left := b.N
  for i := 0; i < b.C-1; i++ { ... }
  go func(n int) { b.runWorker(ctx, client, n); wg.Done() }(left)
  wg.Wait()
  \<close>
  \<^item> \<^verbatim>\<open>wg.Add\<close> panics when the counter becomes negative, so the loop is reached with
    \<^verbatim>\<open>b.C\<close> not negative, and \<^verbatim>\<open>b.C-1\<close>, \<^verbatim>\<open>b.C - i\<close> and \<^verbatim>\<open>left - n\<close> stay in range.
  \<^item> \<^verbatim>\<open>b.Request.Host\<close> panics when \<^verbatim>\<open>b.Request\<close> is \<^verbatim>\<open>nil\<close>.
  \<^item> \<^verbatim>\<open>wg.Wait()\<close> blocks until the counter is zero.
  \<^item> \<^verbatim>\<open>close\<close> panics on a \<^verbatim>\<open>nil\<close> channel and on a closed one.
  \<^item> \<^verbatim>\<open>cancel()\<close> cancels \<^verbatim>\<open>sctx\<close>, which only the spinner holds: the workers are given
    \<^verbatim>\<open>ctx\<close>.
  \<^item> The receive from \<^verbatim>\<open>b.report.done\<close> blocks until the reporter has set its signal.
\<close>

definition new_reporter :: reporter where
  "new_reporter = \<lparr>consumed = [], done_ch = False, finalized = None\<rparr>"

definition ctrl_step :: "cpc \<Rightarrow> input \<Rightarrow> state \<Rightarrow> state option" where
  "ctrl_step p inp s =
     (case (p, inp) of
        (CBegin, Tau) \<Rightarrow>
          (case Init (job s) of
             (w, None) \<Rightarrow> Some (s\<lparr>job := w, ctrl := CStart\<rparr>)
           | (w, Some e) \<Rightarrow> Some (panics e (s\<lparr>job := w\<rparr>)))
      | (CStart, Now t) \<Rightarrow> Some (s\<lparr>job := (job s)\<lparr>start := t\<rparr>, ctrl := CReport\<rparr>)
      | (CReport, Tau) \<Rightarrow>
          Some (s\<lparr>job := (job s)\<lparr>report := Some new_reporter\<rparr>,
                  reporter_running := True, ctrl := CAdd\<rparr>)
      | (CAdd, Tau) \<Rightarrow>
          (if wg s + jobC (job s) < 0
           then Some (panics NegativeWaitGroup (s\<lparr>wg := wg s + jobC (job s)\<rparr>))
           else Some (s\<lparr>wg := wg s + jobC (job s), ctrl := CClient\<rparr>))
      | (CClient, Split r) \<Rightarrow>
          (case Request (job s) of
             None \<Rightarrow> Some (panics NilPointer s)
           | Some rq \<Rightarrow>
               Some (s\<lparr>shared_client := Some (new_client (job s) (Host rq) r),
                       ctrl := CSpawn 0 (jobN (job s))\<rparr>))
      | (CSpawn i left, Tau) \<Rightarrow>
          (if i < jobC (job s) - 1
           then Some (s\<lparr>workers := workers s @ [new_worker (share (jobC (job s)) i left)],
                        ctrl := CSpawn (i + 1) (left - share (jobC (job s)) i left)\<rparr>)
           else Some (s\<lparr>workers := workers s @ [new_worker left], ctrl := CWait\<rparr>))
      | (CWait, Tau) \<Rightarrow> (if wg s = 0 then Some (s\<lparr>ctrl := CClose\<rparr>) else None)
      | (CClose, Tau) \<Rightarrow>
          (case results (job s) of
             None \<Rightarrow> Some (panics CloseNilChan s)
           | Some ch \<Rightarrow>
               if closed ch then Some (panics CloseClosedChan s)
               else Some (s\<lparr>job := (job s)\<lparr>results := Some (ch\<lparr>closed := True\<rparr>)\<rparr>,
                            closes := closes s + 1, ctrl := CTotal\<rparr>))
      | (CTotal, Now t) \<Rightarrow> Some (s\<lparr>ctrl := CAwait (t - start (job s))\<rparr>)
      | (CAwait tot, Tau) \<Rightarrow>
          (case report (job s) of
             None \<Rightarrow> Some (panics NilPointer s)
           | Some rp \<Rightarrow>
               if done_ch rp
               then Some (s\<lparr>job := (job s)\<lparr>report := Some (rp\<lparr>finalized := Some tot\<rparr>)\<rparr>,
                            ctrl := CFinished\<rparr>)
               else None)
      | _ \<Rightarrow> None)"

subsection \<open>Runs\<close>

text \<open>
  An action is a step of \<^verbatim>\<open>Run\<close>, of a worker (by its index) or of the reporter, or
  the cancellation of \<^verbatim>\<open>ctx\<close> by the caller. After a panic nothing runs. A schedule is
  a list of actions; \<open>run\<close> executes it and is \<open>None\<close> when one of its actions is
  not enabled.
\<close>

datatype action = Ctrl input | Worker nat input | Reporter | Cancel

definition step :: "action \<Rightarrow> state \<Rightarrow> state option" where
  "step a s =
     (if crashed s \<noteq> None then None
      else case a of
        Ctrl inp \<Rightarrow> ctrl_step (ctrl s) inp s
      | Worker k inp \<Rightarrow>
          (if k < length (workers s)
           then worker_step (pc (workers s ! k)) inp k (workers s ! k) s
           else None)
      | Reporter \<Rightarrow> reporter_step s
      | Cancel \<Rightarrow> (if cancelled s then None else Some (s\<lparr>cancelled := True\<rparr>)))"

fun run :: "action list \<Rightarrow> state \<Rightarrow> state option" where
  "run [] s = Some s"
| "run (a # as) s = (case step a s of None \<Rightarrow> None | Some s' \<Rightarrow> run as s')"


section \<open>Predicates on the states of a run\<close>

text \<open>The fields of \<^verbatim>\<open>Work\<close> that the caller sets: \<open>public w\<close> resets the others.\<close>

definition public :: "work \<Rightarrow> work" where
  "public w = w\<lparr>initOnce := False, results := None, start := 0, report := None, made := 0\<rparr>"

text \<open>Whether \<^verbatim>\<open>b.results\<close> is a closed channel.\<close>

definition chan_closed :: "work \<Rightarrow> bool" where
  "chan_closed w = (case results w of None \<Rightarrow> False | Some ch \<Rightarrow> closed ch)"

text \<open>
  Positions of \<^verbatim>\<open>Run\<close>: before \<^verbatim>\<open>wg.Add\<close> has run; after \<^verbatim>\<open>wg.Wait()\<close> has returned;
  after \<^verbatim>\<open>close(b.results)\<close> has run.
\<close>

definition before_add :: "cpc \<Rightarrow> bool" where
  "before_add p = (p = CBegin \<or> p = CStart \<or> p = CReport \<or> p = CAdd)"

definition past_close :: "cpc \<Rightarrow> bool" where
  "past_close p = (case p of CTotal \<Rightarrow> True | CAwait t \<Rightarrow> True | CFinished \<Rightarrow> True | _ \<Rightarrow> False)"

definition past_wait :: "cpc \<Rightarrow> bool" where
  "past_wait p = (p = CClose \<or> past_close p)"

text \<open>
  \<open>pending C N p\<close>: the shares of the workers that \<^verbatim>\<open>runWorkers\<close> has yet to start
  when \<^verbatim>\<open>Run\<close> is at \<open>p\<close>.
\<close>

definition pending :: "int \<Rightarrow> int \<Rightarrow> cpc \<Rightarrow> int list" where
  "pending C N p =
     (case p of
        CSpawn i left \<Rightarrow> shares_from C i left
      | CWait \<Rightarrow> []
      | CClose \<Rightarrow> []
      | CTotal \<Rightarrow> []
      | CAwait t \<Rightarrow> []
      | CFinished \<Rightarrow> []
      | _ \<Rightarrow> shares C N)"

text \<open>
  \<open>exits s\<close>: the number of workers whose goroutine has ended.
  \<open>inflight w\<close>: 1 while the worker is inside \<^verbatim>\<open>makeRequest\<close>, 0 otherwise.
\<close>

definition exit_flag :: "worker \<Rightarrow> int" where
  "exit_flag w = (if pc w = WExit then 1 else 0)"

definition exits :: "state \<Rightarrow> int" where
  "exits s = sum_list (map exit_flag (workers s))"

definition inflight :: "worker \<Rightarrow> nat" where
  "inflight w = (case pc w of WDo t r \<Rightarrow> 1 | WSend r \<Rightarrow> 1 | _ \<Rightarrow> 0)"

definition in_iteration :: "wpc \<Rightarrow> bool" where
  "in_iteration p =
     (case p of WGate \<Rightarrow> True | WReq \<Rightarrow> True | WDo t r \<Rightarrow> True | WSend r \<Rightarrow> True | _ \<Rightarrow> False)"

definition returned :: "wpc \<Rightarrow> bool" where
  "returned p = (p = WRet \<or> p = WExit)"

text \<open>The workers started so far, followed by those yet to start, are the shares.\<close>

definition spawn_inv :: "int \<Rightarrow> int \<Rightarrow> state \<Rightarrow> bool" where
  "spawn_inv C N s =
     (jobC (job s) = C \<and> jobN (job s) = N
      \<and> map wn (workers s) @ pending C N (ctrl s) = shares C N)"

text \<open>
  The counter of the wait group: zero before \<^verbatim>\<open>wg.Add(b.C)\<close>, and from then on
  \<open>C\<close> less the number of workers that have called \<^verbatim>\<open>wg.Done()\<close>.
\<close>

definition wg_inv :: "int \<Rightarrow> state \<Rightarrow> bool" where
  "wg_inv C s =
     (crashed s = None \<longrightarrow> wg s = (if before_add (ctrl s) then 0 else C - exits s))"

text \<open>Once \<^verbatim>\<open>wg.Wait()\<close> has returned, every worker has ended.\<close>

definition exit_inv :: "state \<Rightarrow> bool" where
  "exit_inv s = (past_wait (ctrl s) \<longrightarrow> (\<forall>w \<in> set (workers s). pc w = WExit))"

definition sync_inv :: "int \<Rightarrow> int \<Rightarrow> state \<Rightarrow> bool" where
  "sync_inv C N s = (spawn_inv C N s \<and> wg_inv C s \<and> exit_inv s)"

definition demo_request :: http_request where
  "demo_request = \<lparr>Method = ''GET'', URL = ''http://h/'', Host = ''h:80'', Header = None, Body = None\<rparr>"

definition demo_job :: work where
  "demo_job = \<lparr>Request = Some demo_request, RequestBody = [], RequestFunc = None,
     jobN = 2, jobC = 2, jobK = False, H2 = False, TLSResume = False, Timeout = 20,
     QPS = 1000, DisableCompression = False, DisableKeepAlives = False,
     DisableRedirects = True, Output = [], ProxyAddr = None, initOnce = False,
     results = None, start = 0, report = None, made = 0\<rparr>"

definition demo_schedule :: "action list" where
  "demo_schedule =
    [Ctrl Tau, Ctrl (Now 5), Ctrl Tau, Ctrl Tau, Ctrl (Split (Some (''h'', ''80''))),
     Ctrl Tau, Ctrl Tau,
     Worker 0 (Conv 0), Worker 1 (Conv 0), Worker 0 Tau, Worker 1 Tau,
     Worker 0 Tau, Worker 0 Tau, Worker 0 (Now 7),
     Worker 1 Tau, Worker 1 Tau, Worker 1 (Now 8),
     Worker 1 (Returned [] (Err ''refused'') 9), Worker 1 Tau,
     Worker 0 (Returned [GetConn 7, GotConn False 8 8, WroteRequest 9, GotFirstResponseByte 11]
        (Resp 200 42) 12),
     Worker 0 Tau, Reporter, Worker 0 Tau, Worker 1 Tau, Worker 0 Tau, Worker 1 Tau,
     Ctrl Tau, Ctrl Tau, Reporter, Ctrl (Now 14), Reporter, Ctrl Tau]"


definition demo_results :: "result list" where
  "demo_results =
     [\<lparr>err = Some ''refused'', statusCode = 0, offset = 8, duration = 1,
        connDuration = 0, dnsDuration = 0, reqDuration = 0,
        resDuration = 9, delayDuration = 0, contentLength = 0\<rparr>,
      \<lparr>err = None, statusCode = 200, offset = 7, duration = 5,
        connDuration = 1, dnsDuration = 0, reqDuration = 1,
        resDuration = 1, delayDuration = 2, contentLength = 42\<rparr>]"

definition demo_final :: state where
  "demo_final =
     \<lparr>job = demo_job
        \<lparr>initOnce := True,
         results := Some \<lparr>cap = 2000, buf = [], closed = True\<rparr>,
         start := 5,
         report := Some \<lparr>consumed = demo_results, done_ch = True, finalized = Some 9\<rparr>,
         made := 1\<rparr>,
      heap = [HeaderMap [], HeaderMap []],
      shared_client =
        Some ((new_client demo_job ''h:80'' (Some (''h'', ''80'')))
               \<lparr>CheckRedirect := Some UseLastResponse\<rparr>),
      wg = 0,
      workers =
        [\<lparr>wn = 1, wi = 1, throttle = Some 1000000, pc = WExit, calls = 1\<rparr>,
         \<lparr>wn = 1, wi = 1, throttle = Some 1000000, pc = WExit, calls = 1\<rparr>],
      ctrl = CFinished, reporter_running = True, cancelled = False, crashed = None,
      sent = demo_results, closes = 1\<rparr>"

text \<open>
  \<^verbatim>\<open>b.results\<close> is closed exactly when \<^verbatim>\<open>Run\<close> is past \<^verbatim>\<open>close(b.results)\<close>, and
  \<^verbatim>\<open>close\<close> has then run once, and not at all before.
\<close>

definition close_inv :: "state \<Rightarrow> bool" where
  "close_inv s =
     (chan_closed (job s) = past_close (ctrl s)
      \<and> closes s = (if past_close (ctrl s) then 1 else 0))"

text \<open>
  What holds of the variables of a worker, \<open>c\<close> being whether \<^verbatim>\<open>ctx\<close> is cancelled:
  the counter \<open>i\<close> stays between 0 and \<open>n\<close>; the calls of \<^verbatim>\<open>makeRequest\<close> are the
  completed iterations and the one in progress; inside an iteration \<open>i < n\<close>; and
  without cancellation the worker returns only with \<open>n \<le> i\<close>.
\<close>

definition worker_ok :: "bool \<Rightarrow> worker \<Rightarrow> bool" where
  "worker_ok c x =
     (0 \<le> wi x \<and> wi x \<le> max 0 (wn x)
      \<and> int (calls x) = wi x + int (inflight x)
      \<and> (in_iteration (pc x) \<longrightarrow> wi x < wn x)
      \<and> (returned (pc x) \<and> \<not> c \<longrightarrow> wn x \<le> wi x))"

text \<open>The completed sends are the completed iterations of all workers.\<close>

definition count_inv :: "state \<Rightarrow> bool" where
  "count_inv s =
     ((\<forall>x \<in> set (workers s). worker_ok (cancelled s) x)
      \<and> sum_list (map wi (workers s)) = int (length (sent s)))"

text \<open>A state in which the one worker has a request in flight and \<^verbatim>\<open>ctx\<close> is cancelled.\<close>

definition demo_inflight :: state where
  "demo_inflight =
     (init (demo_job\<lparr>initOnce := True,
                     results := Some \<lparr>cap = 2000, buf = [], closed = False\<rparr>\<rparr>) [])
       \<lparr>workers := [\<lparr>wn = 2, wi = 0, throttle = Some 1000000, pc = WDo 7 demo_request,
                      calls = 1\<rparr>],
        ctrl := CWait, wg := 1, cancelled := True\<rparr>"

text \<open>The same state once the result is sent: the worker is back at the head of its loop.\<close>

definition demo_at_loop :: state where
  "demo_at_loop =
     demo_inflight\<lparr>workers := [\<lparr>wn = 2, wi = 1, throttle = Some 1000000, pc = WLoop,
                                  calls = 1\<rparr>]\<rparr>"

text \<open>A result that carries an error has no status code and no content length.\<close>

definition failed_ok :: "result \<Rightarrow> bool" where
  "failed_ok r = (err r \<noteq> None \<longrightarrow> statusCode r = 0 \<and> contentLength r = 0)"

definition failed_inv :: "state \<Rightarrow> bool" where
  "failed_inv s =
     ((\<forall>r \<in> set (sent s). failed_ok r)
      \<and> (\<forall>x \<in> set (workers s). \<forall>r. pc x = WSend r \<longrightarrow> failed_ok r))"

(*PROPERTIES*)

section \<open>Properties of the distribution\<close>

declare shares_from.simps [simp del]

lemma quot_nonneg: "0 \<le> a \<Longrightarrow> 0 < b \<Longrightarrow> quot a b = a div b"
  by (simp add: quot_def)

lemma div_lower:
  fixes q k l :: int
  assumes "0 < k" "q * k \<le> l"
  shows "q \<le> l div k"
proof -
  have "(q * k) div k \<le> l div k"
    using assms by (intro zdiv_mono1) simp_all
  then show ?thesis using assms by simp
qed

lemma div_upper:
  fixes q k l :: int
  assumes "0 < k" "l \<le> q * k"
  shows "l div k \<le> q"
proof -
  have "l div k \<le> (q * k) div k"
    using assms by (intro zdiv_mono1) simp_all
  then show ?thesis using assms by simp
qed

text \<open>
  When \<open>l\<close> requests are left for \<open>k\<close> workers and \<open>l\<close> lies between \<open>q * k\<close> and
  \<open>(q + 1) * k\<close>, the same holds of what is left for the other \<open>k - 1\<close> workers once
  the first has taken \<open>l div k\<close>.
\<close>

lemma rest_bounds:
  fixes q k l :: int
  assumes k: "1 < k" and lo: "q * k \<le> l" and hi: "l \<le> (q + 1) * k"
  shows "q * (k - 1) \<le> l - l div k \<and> l - l div k \<le> (q + 1) * (k - 1)"
proof -
  define d where "d = l div k"
  define r where "r = l mod k"
  have l: "l = d * k + r" by (simp add: d_def r_def)
  have r: "0 \<le> r" "r < k" using k by (simp_all add: r_def)
  have "q \<le> d" using div_lower [of k q l] k lo by (simp add: d_def)
  moreover have "d \<le> q + 1" using div_upper [of k l "q + 1"] k hi by (simp add: d_def)
  ultimately consider "d = q" | "d = q + 1" by linarith
  then show ?thesis
  proof cases
    case 1
    then show ?thesis using l r k lo hi unfolding d_def [symmetric]
      by (simp add: algebra_simps)
  next
    case 2
    then show ?thesis using l r k lo hi unfolding d_def [symmetric]
      by (simp add: algebra_simps)
  qed
qed

lemma length_shares_from: "i < C \<Longrightarrow> length (shares_from C i left) = nat (C - i)"
proof (induction C i left rule: shares_from.induct)
  case (1 C i left)
  show ?case
  proof (cases "i < C - 1")
    case True
    then show ?thesis
      using 1 by (subst shares_from.simps) (simp add: nat_diff_distrib Suc_nat_eq_nat_zadd1)
  next
    case False
    then show ?thesis using 1 by (subst shares_from.simps) simp
  qed
qed

lemma sum_shares_from: "sum_list (shares_from C i left) = left"
proof (induction C i left rule: shares_from.induct)
  case (1 C i left)
  show ?case
    using 1 by (subst shares_from.simps) simp
qed

lemma shares_from_between:
  "i < C \<Longrightarrow> 0 \<le> q \<Longrightarrow> q * (C - i) \<le> left \<Longrightarrow> left \<le> (q + 1) * (C - i) \<Longrightarrow>
   x \<in> set (shares_from C i left) \<Longrightarrow> q \<le> x \<and> x \<le> q + 1"
proof (induction C i left rule: shares_from.induct)
  case (1 C i left)
  show ?case
  proof (cases "i < C - 1")
    case False
    with "1.prems" have "C - i = 1" "x = left"
      by (simp_all add: shares_from.simps [of C i left])
    with "1.prems" show ?thesis by simp
  next
    case True
    then have k: "1 < C - i" by simp
    have "0 \<le> q * (C - i)"
      using "1.prems"(2) k by simp
    then have nonneg: "0 \<le> left"
      using "1.prems"(3) by linarith
    have sh: "share C i left = left div (C - i)"
      using k nonneg by (simp add: share_def quot_nonneg)
    have head: "q \<le> share C i left \<and> share C i left \<le> q + 1"
      using div_lower [of "C - i" q left] div_upper [of "C - i" left "q + 1"] k "1.prems"(3,4)
      by (simp add: sh)
    have rest: "q * (C - (i + 1)) \<le> left - share C i left
        \<and> left - share C i left \<le> (q + 1) * (C - (i + 1))"
      using rest_bounds [OF k "1.prems"(3,4)] by (simp add: sh algebra_simps)
    from "1.prems"(5) True
    consider "x = share C i left" | "x \<in> set (shares_from C (i + 1) (left - share C i left))"
      by (subst (asm) shares_from.simps) auto
    then show ?thesis
    proof cases
      case 1
      then show ?thesis using head by simp
    next
      case 2
      show ?thesis
        using "1.IH" [OF True _ "1.prems"(2) _ _ 2] True rest by simp
    qed
  qed
qed

lemma shares_between:
  assumes "0 \<le> N" and "1 \<le> C" and "x \<in> set (shares C N)"
  shows "N div C \<le> x \<and> x \<le> N div C + 1"
proof -
  define q where "q = N div C"
  have q: "0 \<le> q" using assms by (simp add: q_def pos_imp_zdiv_nonneg_iff)
  have split: "N = q * C + N mod C" by (simp add: q_def)
  have "0 \<le> N mod C" using assms by simp
  with split have lo: "q * (C - 0) \<le> N" by simp
  have "N mod C < C" using assms by simp
  with split have hi: "N \<le> (q + 1) * (C - 0)" by (simp add: algebra_simps)
  show ?thesis
    using shares_from_between [of 0 C q N x] assms q lo hi
    by (simp add: shares_def q_def)
qed

lemma shares_nonneg:
  assumes "0 \<le> N" and "1 \<le> C" and "x \<in> set (shares C N)"
  shows "0 \<le> x"
proof -
  have "0 \<le> N div C" using assms by (simp add: pos_imp_zdiv_nonneg_iff)
  then show ?thesis using shares_between [OF assms] by linarith
qed

lemma length_shares: "1 \<le> C \<Longrightarrow> length (shares C N) = nat C"
  using length_shares_from [of 0 C N] by (simp add: shares_def)

lemma sum_shares: "sum_list (shares C N) = N"
  by (simp add: shares_def sum_shares_from)

text \<open>
  C1. For every \<open>N \<ge> 0\<close> and \<open>C \<ge> 1\<close> the loop of \<^verbatim>\<open>runWorkers\<close> hands out \<open>C\<close>
  shares, none of them negative, whose sum is \<open>N\<close> and of which no two differ by more
  than 1.
\<close>

theorem shares_balanced:
  assumes "0 \<le> N" and "1 \<le> C"
  shows "length (shares C N) = nat C
    \<and> (\<forall>x \<in> set (shares C N). 0 \<le> x)
    \<and> sum_list (shares C N) = N
    \<and> (\<forall>x \<in> set (shares C N). \<forall>y \<in> set (shares C N). \<bar>x - y\<bar> \<le> 1)"
proof -
  have "\<forall>x \<in> set (shares C N). 0 \<le> x"
    using shares_nonneg [OF assms] by blast
  moreover have "\<forall>x \<in> set (shares C N). \<forall>y \<in> set (shares C N). \<bar>x - y\<bar> \<le> 1"
  proof (intro ballI)
    fix x y
    assume "x \<in> set (shares C N)" "y \<in> set (shares C N)"
    then show "\<bar>x - y\<bar> \<le> 1"
      using shares_between [OF assms, of x] shares_between [OF assms, of y] by linarith
  qed
  ultimately show ?thesis
    using assms by (simp add: length_shares sum_shares)
qed

theorem shares_balanced_witness:
  "(0::int) \<le> 10 \<and> (1::int) \<le> 3 \<and> shares 3 10 = [3, 3, 4]
    \<and> length (shares 3 10) = 3 \<and> sum_list (shares 3 10) = 10"
  using shares_balanced [of 10 3]
  by (simp add: shares_def shares_from.simps share_def quot_def)

section \<open>Case analysis of the steps\<close>

lemma send_result_cases:
  assumes "send_result r s = Some (Some s1)"
  obtains (Buffered) ch where "results (job s) = Some ch" "\<not> closed ch" "length (buf ch) < cap ch"
      "s1 = s\<lparr>job := (job s)\<lparr>results := Some (ch\<lparr>buf := buf ch @ [r]\<rparr>)\<rparr>, sent := sent s @ [r]\<rparr>"
  | (Handoff) ch rp where "results (job s) = Some ch" "\<not> closed ch" "cap ch = 0"
      "report (job s) = Some rp" "reporter_running s" "\<not> done_ch rp"
      "s1 = s\<lparr>job := (job s)\<lparr>report := Some (rp\<lparr>consumed := consumed rp @ [r]\<rparr>)\<rparr>,
              sent := sent s @ [r]\<rparr>"
  using assms by (auto simp: send_result_def split: option.splits if_splits)

lemma worker_step_cases [consumes 1, case_names Init Redirect Loop Gate ReqPanic Req Do SendPanic Send RetPanic Ret]:
  assumes "worker_step p inp k w s = Some s'"
  obtains
    (Init) v where "p = WInit" "inp = Conv v"
      "s' = set_worker k (w\<lparr>throttle := new_throttle (QPS (job s)) v, pc := WRedirect\<rparr>) s"
  | (Redirect) "p = WRedirect" "inp = Tau"
      "s' = set_worker k (w\<lparr>pc := WLoop\<rparr>)
         (if DisableRedirects (job s)
          then s\<lparr>shared_client :=
                   map_option (\<lambda>c. c\<lparr>CheckRedirect := Some UseLastResponse\<rparr>) (shared_client s)\<rparr>
          else s)"
  | (Loop) "p = WLoop" "inp = Tau"
      "s' = set_worker k (w\<lparr>pc := (if wi w < wn w \<and> \<not> cancelled s
                                   then (if QPS (job s) > 0 then WGate else WReq)
                                   else WRet)\<rparr>) s"
  | (Gate) d where "p = WGate" "inp = Tau" "throttle w = Some d"
      "s' = set_worker k (w\<lparr>pc := WReq\<rparr>) s"
  | (ReqPanic) t e where "p = WReq" "inp = Now t" "new_request (job s) (heap s) = Inl e"
      "s' = panics e s"
  | (Req) t req h' where "p = WReq" "inp = Now t" "new_request (job s) (heap s) = Inr (req, h')"
      "s' = set_worker k (w\<lparr>pc := WDo t req, calls := calls w + 1\<rparr>) (s\<lparr>heap := h'\<rparr>)"
  | (Do) t0 req hooks r t where "p = WDo t0 req" "inp = Returned hooks r t"
      "s' = set_worker k (w\<lparr>pc := WSend (build_result t0 hooks r t)\<rparr>) s"
  | (SendPanic) r where "p = WSend r" "inp = Tau" "send_result r s = Some None"
      "s' = panics SendClosedChan s"
  | (Send) r s1 where "p = WSend r" "inp = Tau" "send_result r s = Some (Some s1)"
      "s' = set_worker k (w\<lparr>wi := wi w + 1, pc := WLoop\<rparr>) s1"
  | (RetPanic) "p = WRet" "inp = Tau" "wg s - 1 < 0"
      "s' = panics NegativeWaitGroup (s\<lparr>wg := wg s - 1\<rparr>)"
  | (Ret) "p = WRet" "inp = Tau" "0 \<le> wg s - 1"
      "s' = set_worker k (w\<lparr>pc := WExit\<rparr>) (s\<lparr>wg := wg s - 1\<rparr>)"
proof (cases p)
  case WInit
  then show ?thesis using assms that(1) by (cases inp) (simp_all add: worker_step_def)
next
  case WRedirect
  then show ?thesis using assms that(2) by (cases inp) (simp_all add: worker_step_def)
next
  case WLoop
  then show ?thesis using assms that(3) by (cases inp) (auto simp: worker_step_def split: if_splits)
next
  case WGate
  then show ?thesis using assms that(4)
    by (cases inp) (auto simp: worker_step_def split: option.splits)
next
  case WReq
  then show ?thesis using assms that(5,6)
    by (cases inp) (auto simp: worker_step_def split: sum.splits prod.splits)
next
  case (WDo t0 req)
  then show ?thesis using assms that(7) by (cases inp) (simp_all add: worker_step_def)
next
  case (WSend r)
  then show ?thesis using assms that(8,9)
    by (cases inp) (auto simp: worker_step_def split: option.splits)
next
  case WRet
  then show ?thesis using assms that(10,11)
    by (cases inp) (auto simp: worker_step_def split: if_splits)
next
  case WExit
  then show ?thesis using assms by (cases inp) (simp_all add: worker_step_def)
qed

lemma ctrl_step_cases [consumes 1, case_names InitPanic Init Start Report AddPanic Add ClientPanic Client Spawn Last Wait CloseNil CloseClosed Close Total AwaitPanic Await]:
  assumes "ctrl_step p inp s = Some s'"
  obtains
    (InitPanic) w e where "p = CBegin" "inp = Tau" "Init (job s) = (w, Some e)"
      "s' = panics e (s\<lparr>job := w\<rparr>)"
  | (Init) w where "p = CBegin" "inp = Tau" "Init (job s) = (w, None)"
      "s' = s\<lparr>job := w, ctrl := CStart\<rparr>"
  | (Start) t where "p = CStart" "inp = Now t"
      "s' = s\<lparr>job := (job s)\<lparr>start := t\<rparr>, ctrl := CReport\<rparr>"
  | (Report) "p = CReport" "inp = Tau"
      "s' = s\<lparr>job := (job s)\<lparr>report := Some new_reporter\<rparr>,
              reporter_running := True, ctrl := CAdd\<rparr>"
  | (AddPanic) "p = CAdd" "inp = Tau" "wg s + jobC (job s) < 0"
      "s' = panics NegativeWaitGroup (s\<lparr>wg := wg s + jobC (job s)\<rparr>)"
  | (Add) "p = CAdd" "inp = Tau" "0 \<le> wg s + jobC (job s)"
      "s' = s\<lparr>wg := wg s + jobC (job s), ctrl := CClient\<rparr>"
  | (ClientPanic) r where "p = CClient" "inp = Split r" "Request (job s) = None"
      "s' = panics NilPointer s"
  | (Client) r rq where "p = CClient" "inp = Split r" "Request (job s) = Some rq"
      "s' = s\<lparr>shared_client := Some (new_client (job s) (Host rq) r),
              ctrl := CSpawn 0 (jobN (job s))\<rparr>"
  | (Spawn) i left where "p = CSpawn i left" "inp = Tau" "i < jobC (job s) - 1"
      "s' = s\<lparr>workers := workers s @ [new_worker (share (jobC (job s)) i left)],
              ctrl := CSpawn (i + 1) (left - share (jobC (job s)) i left)\<rparr>"
  | (Last) i left where "p = CSpawn i left" "inp = Tau" "\<not> i < jobC (job s) - 1"
      "s' = s\<lparr>workers := workers s @ [new_worker left], ctrl := CWait\<rparr>"
  | (Wait) "p = CWait" "inp = Tau" "wg s = 0" "s' = s\<lparr>ctrl := CClose\<rparr>"
  | (CloseNil) "p = CClose" "inp = Tau" "results (job s) = None" "s' = panics CloseNilChan s"
  | (CloseClosed) ch where "p = CClose" "inp = Tau" "results (job s) = Some ch" "closed ch"
      "s' = panics CloseClosedChan s"
  | (Close) ch where "p = CClose" "inp = Tau" "results (job s) = Some ch" "\<not> closed ch"
      "s' = s\<lparr>job := (job s)\<lparr>results := Some (ch\<lparr>closed := True\<rparr>)\<rparr>,
              closes := closes s + 1, ctrl := CTotal\<rparr>"
  | (Total) t where "p = CTotal" "inp = Now t" "s' = s\<lparr>ctrl := CAwait (t - start (job s))\<rparr>"
  | (AwaitPanic) tot where "p = CAwait tot" "inp = Tau" "report (job s) = None"
      "s' = panics NilPointer s"
  | (Await) tot rp where "p = CAwait tot" "inp = Tau" "report (job s) = Some rp" "done_ch rp"
      "s' = s\<lparr>job := (job s)\<lparr>report := Some (rp\<lparr>finalized := Some tot\<rparr>)\<rparr>,
              ctrl := CFinished\<rparr>"
proof (cases p)
  case CBegin
  then show ?thesis using assms that(1,2)
    by (cases inp) (auto simp: ctrl_step_def split: prod.splits option.splits)
next
  case CStart
  then show ?thesis using assms that(3) by (cases inp) (simp_all add: ctrl_step_def)
next
  case CReport
  then show ?thesis using assms that(4) by (cases inp) (simp_all add: ctrl_step_def)
next
  case CAdd
  then show ?thesis using assms that(5,6)
    by (cases inp) (auto simp: ctrl_step_def split: if_splits)
next
  case CClient
  then show ?thesis using assms that(7,8)
    by (cases inp) (auto simp: ctrl_step_def split: option.splits)
next
  case (CSpawn i left)
  then show ?thesis using assms that(9,10)
    by (cases inp) (auto simp: ctrl_step_def split: if_splits)
next
  case CWait
  then show ?thesis using assms that(11)
    by (cases inp) (auto simp: ctrl_step_def split: if_splits)
next
  case CClose
  then show ?thesis using assms that(12,13,14)
    by (cases inp) (auto simp: ctrl_step_def split: option.splits if_splits)
next
  case CTotal
  then show ?thesis using assms that(15) by (cases inp) (simp_all add: ctrl_step_def)
next
  case (CAwait tot)
  then show ?thesis using assms that(16,17)
    by (cases inp) (auto simp: ctrl_step_def split: option.splits if_splits)
next
  case CFinished
  then show ?thesis using assms by (cases inp) (simp_all add: ctrl_step_def)
qed

lemma reporter_step_cases [consumes 1, case_names Receive Done]:
  assumes "reporter_step s = Some s'"
  obtains
    (Receive) rp ch r rs where "reporter_running s" "report (job s) = Some rp"
      "results (job s) = Some ch" "\<not> done_ch rp" "buf ch = r # rs"
      "s' = s\<lparr>job := (job s)\<lparr>results := Some (ch\<lparr>buf := rs\<rparr>),
                 report := Some (rp\<lparr>consumed := consumed rp @ [r]\<rparr>)\<rparr>\<rparr>"
  | (Done) rp ch where "reporter_running s" "report (job s) = Some rp"
      "results (job s) = Some ch" "\<not> done_ch rp" "buf ch = []" "closed ch"
      "s' = s\<lparr>job := (job s)\<lparr>report := Some (rp\<lparr>done_ch := True\<rparr>)\<rparr>\<rparr>"
  using assms unfolding reporter_step_def
  by (auto split: option.splits list.splits if_splits)

lemma step_cases [consumes 1, case_names Ctrl Worker Reporter Cancel]:
  assumes "step a s = Some s'"
  obtains
    (Ctrl) inp where "a = Ctrl inp" "crashed s = None" "ctrl_step (ctrl s) inp s = Some s'"
  | (Worker) k inp where "a = Worker k inp" "crashed s = None" "k < length (workers s)"
      "worker_step (pc (workers s ! k)) inp k (workers s ! k) s = Some s'"
  | (Reporter) "a = Reporter" "crashed s = None" "reporter_step s = Some s'"
  | (Cancel) "a = Cancel" "crashed s = None" "\<not> cancelled s" "s' = s\<lparr>cancelled := True\<rparr>"
  using assms unfolding step_def
  by (auto split: action.splits if_splits)

section \<open>Frame properties of the steps\<close>

lemma set_worker_simps [simp]:
  "workers (set_worker k w s) = (workers s)[k := w]"
  "job (set_worker k w s) = job s"
  "heap (set_worker k w s) = heap s"
  "shared_client (set_worker k w s) = shared_client s"
  "wg (set_worker k w s) = wg s"
  "ctrl (set_worker k w s) = ctrl s"
  "reporter_running (set_worker k w s) = reporter_running s"
  "cancelled (set_worker k w s) = cancelled s"
  "crashed (set_worker k w s) = crashed s"
  "sent (set_worker k w s) = sent s"
  "closes (set_worker k w s) = closes s"
  by (simp_all add: set_worker_def)

lemma panics_simps [simp]:
  "workers (panics e s) = workers s"
  "job (panics e s) = job s"
  "heap (panics e s) = heap s"
  "shared_client (panics e s) = shared_client s"
  "wg (panics e s) = wg s"
  "ctrl (panics e s) = ctrl s"
  "reporter_running (panics e s) = reporter_running s"
  "cancelled (panics e s) = cancelled s"
  "crashed (panics e s) = Some e"
  "sent (panics e s) = sent s"
  "closes (panics e s) = closes s"
  by (simp_all add: panics_def)

lemma send_result_effect:
  assumes "send_result r s = Some (Some s1)"
  shows "workers s1 = workers s" "heap s1 = heap s" "shared_client s1 = shared_client s"
    "wg s1 = wg s" "ctrl s1 = ctrl s" "reporter_running s1 = reporter_running s"
    "cancelled s1 = cancelled s" "crashed s1 = crashed s" "sent s1 = sent s @ [r]"
    "closes s1 = closes s" "public (job s1) = public (job s)"
    "chan_closed (job s1) = chan_closed (job s)"
  using assms by (cases rule: send_result_cases; simp add: public_def chan_closed_def)+

lemma Init_effect:
  assumes "Init w = (w', e)"
  shows "public w' = public w" "chan_closed w' \<Longrightarrow> chan_closed w" "initOnce w \<Longrightarrow> w' = w"
  using assms by (auto simp: Init_def Let_def public_def chan_closed_def split: if_splits)

lemma run_invariant:
  assumes "run acts s0 = Some s" and "P s0"
    and "\<And>a s s'. P s \<Longrightarrow> step a s = Some s' \<Longrightarrow> P s'"
  shows "P s"
  using assms(1,2)
proof (induction acts arbitrary: s0)
  case Nil
  then show ?case by simp
next
  case (Cons a acts)
  then obtain s1 where s1: "step a s0 = Some s1" "run acts s1 = Some s"
    by (auto split: option.splits)
  from Cons.prems(2) s1(1) have "P s1" by (rule assms(3))
  with Cons.IH s1(2) show ?case by blast
qed

lemma worker_step_public:
  assumes "worker_step p inp k w s = Some s'"
  shows "public (job s') = public (job s)"
  using assms by (cases rule: worker_step_cases) (simp_all add: send_result_effect split: if_splits)

lemma ctrl_step_public:
  assumes "ctrl_step p inp s = Some s'"
  shows "public (job s') = public (job s)"
  using assms by (cases rule: ctrl_step_cases) (auto dest: Init_effect(1) simp: public_def)

lemma reporter_step_public:
  assumes "reporter_step s = Some s'"
  shows "public (job s') = public (job s)"
  using assms by (cases rule: reporter_step_cases) (simp_all add: public_def)

lemma step_public:
  assumes "step a s = Some s'"
  shows "public (job s') = public (job s)"
  using assms
  by (cases rule: step_cases)
    (simp_all add: worker_step_public ctrl_step_public reporter_step_public)

lemma public_fields:
  "public w' = public w \<Longrightarrow> jobC w' = jobC w \<and> jobN w' = jobN w \<and> QPS w' = QPS w
     \<and> DisableRedirects w' = DisableRedirects w \<and> Request w' = Request w
     \<and> RequestBody w' = RequestBody w \<and> RequestFunc w' = RequestFunc w"
  by (cases w, cases w') (simp add: public_def)

lemma run_public:
  assumes "run acts s0 = Some s"
  shows "public (job s) = public (job s0)"
  by (rule run_invariant [OF assms, where P = "\<lambda>s. public (job s) = public (job s0)"])
    (simp_all add: step_public)

section \<open>The workers that are started\<close>

lemma sum_list_map_update:
  fixes f :: "'a \<Rightarrow> int"
  shows "k < length xs \<Longrightarrow> sum_list (map f (xs[k := x])) = sum_list (map f xs) - f (xs ! k) + f x"
proof (induction xs arbitrary: k)
  case Nil
  then show ?case by simp
next
  case (Cons y ys)
  then show ?case by (cases k) simp_all
qed

lemma exit_flag_cases: "exit_flag w = 1 \<and> pc w = WExit \<or> exit_flag w = 0 \<and> pc w \<noteq> WExit"
  by (simp add: exit_flag_def)

lemma sum_exit_flag_le: "sum_list (map exit_flag ws) \<le> int (length ws)"
proof (induction ws)
  case Nil
  then show ?case by simp
next
  case (Cons w ws)
  then show ?case using exit_flag_cases [of w] by auto
qed

lemma all_flags_set:
  assumes "sum_list (map exit_flag ws) = int (length ws)"
  shows "\<forall>w \<in> set ws. pc w = WExit"
  using assms
proof (induction ws)
  case Nil
  then show ?case by simp
next
  case (Cons w ws)
  have "exit_flag w + sum_list (map exit_flag ws) = 1 + int (length ws)"
    using Cons.prems by simp
  with sum_exit_flag_le [of ws] exit_flag_cases [of w]
  have "pc w = WExit" "sum_list (map exit_flag ws) = int (length ws)"
    by linarith+
  with Cons.IH show ?case by simp
qed

lemma worker_step_wn:
  assumes "worker_step (pc (ws ! k)) inp k (ws ! k) s = Some s'" "workers s = ws" "k < length ws"
  shows "map wn (workers s') = map wn ws \<and> ctrl s' = ctrl s"
  using assms
  by (cases rule: worker_step_cases)
    (auto simp: send_result_effect map_update list_update_same_conv split: if_splits)

lemma spawn_inv_step:
  assumes "spawn_inv C N s" "step a s = Some s'"
  shows "spawn_inv C N s'"
proof -
  have job: "jobC (job s') = C \<and> jobN (job s') = N"
    using assms public_fields [OF step_public [OF assms(2)]] by (simp add: spawn_inv_def)
  have *: "map wn (workers s') @ pending C N (ctrl s') = shares C N"
    using assms(2)
  proof (cases rule: step_cases)
    case (Ctrl inp)
    from Ctrl(3) show ?thesis
    proof (cases rule: ctrl_step_cases)
      case (Spawn i left)
      then show ?thesis using assms(1)
        by (simp add: spawn_inv_def pending_def new_worker_def shares_from.simps [of C i left])
    next
      case (Last i left)
      then show ?thesis using assms(1)
        by (simp add: spawn_inv_def pending_def new_worker_def shares_from.simps [of C i left])
    qed (use assms(1) in \<open>simp_all add: spawn_inv_def pending_def shares_def\<close>)
  next
    case (Worker k inp)
    then show ?thesis
      using assms(1) worker_step_wn [of "workers s" k inp s s'] by (simp add: spawn_inv_def)
  next
    case Reporter
    from Reporter(3) show ?thesis
      by (cases rule: reporter_step_cases) (use assms(1) in \<open>simp_all add: spawn_inv_def\<close>)
  next
    case Cancel
    then show ?thesis using assms(1) by (simp add: spawn_inv_def)
  qed
  show ?thesis using job * by (simp add: spawn_inv_def)
qed

lemma spawn_inv_init: "spawn_inv (jobC w) (jobN w) (init w h)"
  by (simp add: spawn_inv_def init_def pending_def)

lemma spawn_inv_run:
  assumes "run acts (init w h) = Some s"
  shows "spawn_inv (jobC w) (jobN w) s"
  by (rule run_invariant [OF assms, where P = "spawn_inv (jobC w) (jobN w)"])
    (simp_all add: spawn_inv_init spawn_inv_step)

section \<open>The wait group\<close>

lemma exits_set_worker:
  "k < length (workers s) \<Longrightarrow>
   exits (set_worker k w s) = exits s - exit_flag (workers s ! k) + exit_flag w"
  by (simp add: exits_def sum_list_map_update)

lemma exits_simps [simp]:
  "exits (s\<lparr>heap := h\<rparr>) = exits s"
  "exits (s\<lparr>wg := g\<rparr>) = exits s"
  "exits (s\<lparr>shared_client := c\<rparr>) = exits s"
  "exits (s\<lparr>ctrl := p\<rparr>) = exits s"
  "exits (s\<lparr>job := j\<rparr>) = exits s"
  "exits (s\<lparr>cancelled := b\<rparr>) = exits s"
  "exits (s\<lparr>closes := n\<rparr>) = exits s"
  "exits (s\<lparr>reporter_running := b\<rparr>) = exits s"
  "exits (panics e s) = exits s"
  by (simp_all add: exits_def)

lemma exits_send: "send_result r s = Some (Some s1) \<Longrightarrow> exits s1 = exits s"
  by (simp add: exits_def send_result_effect)

lemma spawn_inv_no_workers:
  assumes "spawn_inv C N s" "before_add (ctrl s) \<or> ctrl s = CClient"
  shows "workers s = []"
proof -
  have "pending C N (ctrl s) = shares C N"
    using assms(2) by (auto simp: before_add_def pending_def)
  with assms(1) have "map wn (workers s) @ shares C N = shares C N"
    by (simp add: spawn_inv_def)
  then show ?thesis by simp
qed

lemma spawn_inv_all_started:
  assumes "spawn_inv C N s" "1 \<le> C" "ctrl s = CWait \<or> past_wait (ctrl s)"
  shows "map wn (workers s) = shares C N" "int (length (workers s)) = C"
proof -
  have "pending C N (ctrl s) = []"
    using assms(3) by (auto simp: past_wait_def past_close_def pending_def split: cpc.splits)
  with assms(1) show *: "map wn (workers s) = shares C N"
    by (simp add: spawn_inv_def)
  have "length (map wn (workers s)) = nat C"
    using assms(2) by (simp only: * length_shares)
  then show "int (length (workers s)) = C" using assms(2) by simp
qed

lemma worker_step_exits:
  assumes "worker_step (pc (workers s ! k)) inp k (workers s ! k) s = Some s'"
    and "k < length (workers s)" and "crashed s' = None"
  shows "wg s' - wg s = exits s - exits s'" "ctrl s' = ctrl s"
  using assms
  by (cases rule: worker_step_cases;
      simp add: exits_set_worker exits_send send_result_effect exit_flag_def split: if_splits)+

lemma wg_inv_step:
  assumes "spawn_inv C N s" "wg_inv C s" "step a s = Some s'"
  shows "wg_inv C s'"
proof (cases "crashed s' = None")
  case False
  then show ?thesis by (auto simp: wg_inv_def)
next
  case True
  from assms(3) show ?thesis
  proof (cases rule: step_cases)
    case (Ctrl inp)
    from Ctrl(3) show ?thesis
    proof (cases rule: ctrl_step_cases)
      case Add
      then show ?thesis
        using assms(1,2) Ctrl(2) spawn_inv_no_workers [OF assms(1)]
        by (simp add: wg_inv_def before_add_def spawn_inv_def exits_def)
    next
      case (Spawn i left)
      then show ?thesis using assms(2) Ctrl(2)
        by (simp add: wg_inv_def before_add_def exits_def exit_flag_def new_worker_def)
    next
      case (Last i left)
      then show ?thesis using assms(2) Ctrl(2)
        by (simp add: wg_inv_def before_add_def exits_def exit_flag_def new_worker_def)
    qed (use assms(2) Ctrl(2) True in \<open>simp_all add: wg_inv_def before_add_def exits_def\<close>)
  next
    case (Worker k inp)
    have "\<not> before_add (ctrl s)"
      using spawn_inv_no_workers [OF assms(1)] Worker(3) by auto
    then show ?thesis
      using worker_step_exits [OF Worker(4,3) True] assms(2) Worker(2)
      by (simp add: wg_inv_def)
  next
    case Reporter
    from Reporter(3) show ?thesis
      by (cases rule: reporter_step_cases) (use assms(2) Reporter(2) in \<open>simp_all add: wg_inv_def\<close>)
  next
    case Cancel
    then show ?thesis using assms(2) by (simp add: wg_inv_def)
  qed
qed

lemma worker_step_not_exited:
  assumes "worker_step p inp k w s = Some s'"
  shows "p \<noteq> WExit"
  using assms by (cases rule: worker_step_cases) simp_all

lemma exit_inv_step:
  assumes "spawn_inv C N s" "wg_inv C s" "exit_inv s" "1 \<le> C" "step a s = Some s'"
  shows "exit_inv s'"
  using assms(5)
proof (cases rule: step_cases)
  case (Ctrl inp)
  from Ctrl(3) show ?thesis
  proof (cases rule: ctrl_step_cases)
    case Wait
    have "exits s = C"
      using assms(2) Ctrl(2) Wait by (simp add: wg_inv_def before_add_def)
    then have "sum_list (map exit_flag (workers s)) = int (length (workers s))"
      using spawn_inv_all_started(2) [OF assms(1,4)] Wait by (simp add: exits_def)
    then show ?thesis using Wait all_flags_set by (simp add: exit_inv_def)
  qed (use assms(3) in \<open>simp_all add: exit_inv_def past_wait_def past_close_def\<close>)
next
  case (Worker k inp)
  have "pc (workers s ! k) \<noteq> WExit"
    using worker_step_not_exited [OF Worker(4)] .
  then have "\<not> past_wait (ctrl s)"
    using assms(3) Worker(3) by (auto simp: exit_inv_def)
  then show ?thesis
    using worker_step_wn [OF Worker(4) refl Worker(3)] by (simp add: exit_inv_def)
next
  case Reporter
  from Reporter(3) show ?thesis
    by (cases rule: reporter_step_cases) (use assms(3) in \<open>simp_all add: exit_inv_def\<close>)
next
  case Cancel
  then show ?thesis using assms(3) by (simp add: exit_inv_def)
qed

lemma sync_inv_step:
  assumes "sync_inv C N s" "1 \<le> C" "step a s = Some s'"
  shows "sync_inv C N s'"
  using assms spawn_inv_step [of C N s a s'] wg_inv_step [of C N s a s']
    exit_inv_step [of C N s a s']
  by (simp add: sync_inv_def)

lemma sync_inv_init: "sync_inv (jobC w) (jobN w) (init w h)"
  using spawn_inv_init [of w h]
  by (simp add: sync_inv_def wg_inv_def exit_inv_def init_def before_add_def past_wait_def
      past_close_def)

lemma sync_inv_run:
  assumes "run acts (init w h) = Some s" "1 \<le> jobC w"
  shows "sync_inv (jobC w) (jobN w) s"
  by (rule run_invariant [OF assms(1), where P = "sync_inv (jobC w) (jobN w)"])
    (use assms(2) in \<open>simp_all add: sync_inv_init sync_inv_step\<close>)

section \<open>An example run\<close>

lemmas step_defs = step_def ctrl_step_def worker_step_def reporter_step_def send_result_def
  set_worker_def panics_def Init_def min_go_def int64_def maxResult_def maxIdleConn_def
  new_reporter_def new_client_def new_worker_def new_throttle_def Tick_def Duration_of_float_def
  float_trunc_def Microsecond_def Second_def new_request_def cloneRequest_def header_entries_def
  heap_get_def build_result_def locals0_def share_def quot_def init_def

lemma demo_run: "run demo_schedule (init demo_job []) = Some demo_final"
  by (simp add: demo_schedule_def demo_job_def demo_request_def demo_final_def demo_results_def
      step_defs)

section \<open>The close of the channel\<close>

lemma chan_closed_simps [simp]:
  "chan_closed (w\<lparr>start := t\<rparr>) = chan_closed w"
  "chan_closed (w\<lparr>report := r\<rparr>) = chan_closed w"
  "chan_closed (w\<lparr>results := Some ch\<rparr>) = closed ch"
  by (simp_all add: chan_closed_def)

lemma worker_step_close:
  assumes "worker_step p inp k w s = Some s'"
  shows "chan_closed (job s') = chan_closed (job s)" "closes s' = closes s" "ctrl s' = ctrl s"
  using assms
  by (cases rule: worker_step_cases; simp add: send_result_effect split: if_splits)+

lemma close_inv_step:
  assumes "close_inv s" "step a s = Some s'"
  shows "close_inv s'"
  using assms(2)
proof (cases rule: step_cases)
  case (Ctrl inp)
  from Ctrl(3) show ?thesis
  proof (cases rule: ctrl_step_cases)
    case (InitPanic w e)
    then show ?thesis using assms(1) Init_effect(2) [OF InitPanic(3)]
      by (auto simp: close_inv_def past_close_def)
  next
    case (Init w)
    then show ?thesis using assms(1) Init_effect(2) [OF Init(3)]
      by (auto simp: close_inv_def past_close_def)
  next
    case (Close ch)
    then show ?thesis using assms(1) by (simp add: close_inv_def past_close_def)
  next
    case (Await tot rp)
    then show ?thesis using assms(1) by (simp add: close_inv_def past_close_def)
  qed (use assms(1) in \<open>simp_all add: close_inv_def past_close_def\<close>)
next
  case (Worker k inp)
  then show ?thesis using assms(1) worker_step_close [OF Worker(4)] by (simp add: close_inv_def)
next
  case Reporter
  from Reporter(3) show ?thesis
    by (cases rule: reporter_step_cases)
      (use assms(1) in \<open>simp_all add: close_inv_def chan_closed_def\<close>)
next
  case Cancel
  then show ?thesis using assms(1) by (simp add: close_inv_def)
qed

lemma close_inv_run:
  assumes "run acts (init w h) = Some s" "\<not> chan_closed w"
  shows "close_inv s"
proof (rule run_invariant [OF assms(1), where P = close_inv])
  show "close_inv (init w h)"
    using assms(2) by (simp add: close_inv_def init_def past_close_def)
qed (rule close_inv_step)

text \<open>
  C4. In a run with \<open>C \<ge> 1\<close> workers on a \<^verbatim>\<open>Work\<close> whose channel is not already
  closed: \<^verbatim>\<open>Run\<close> is past \<^verbatim>\<open>wg.Wait()\<close> only when all \<open>C\<close> workers have been started
  and each has returned and called \<^verbatim>\<open>wg.Done()\<close>; the channel is closed only in such a
  state; \<^verbatim>\<open>close\<close> runs at most once, and exactly once by the time \<^verbatim>\<open>Run\<close> is past
  it, in particular when \<^verbatim>\<open>Run\<close> has returned; and when \<^verbatim>\<open>Run\<close> is at the receive
  from \<^verbatim>\<open>b.report.done\<close> the channel is closed.
\<close>

theorem close_after_all_workers:
  assumes "run acts (init w h) = Some s" and "1 \<le> jobC w" and "\<not> chan_closed w"
  shows "(past_wait (ctrl s) \<longrightarrow>
            int (length (workers s)) = jobC w \<and> (\<forall>x \<in> set (workers s). pc x = WExit))
    \<and> (chan_closed (job s) \<longrightarrow> past_wait (ctrl s))
    \<and> closes s \<le> 1
    \<and> (closes s = 1) = chan_closed (job s)
    \<and> (ctrl s = CFinished \<longrightarrow> closes s = 1)
    \<and> (\<forall>tot. ctrl s = CAwait tot \<longrightarrow> chan_closed (job s))"
proof -
  have sync: "sync_inv (jobC w) (jobN w) s"
    using assms(1,2) by (rule sync_inv_run)
  have cl: "close_inv s"
    using assms(1,3) by (rule close_inv_run)
  have "past_wait (ctrl s) \<longrightarrow>
      int (length (workers s)) = jobC w \<and> (\<forall>x \<in> set (workers s). pc x = WExit)"
    using sync assms(2) spawn_inv_all_started(2) [of "jobC w" "jobN w" s]
    by (simp add: sync_inv_def exit_inv_def)
  moreover have "chan_closed (job s) \<longrightarrow> past_wait (ctrl s)"
    using cl by (simp add: close_inv_def past_wait_def)
  moreover have "closes s \<le> 1" "(closes s = 1) = chan_closed (job s)"
    using cl by (simp_all add: close_inv_def)
  moreover have "ctrl s = CFinished \<longrightarrow> closes s = 1"
    using cl by (simp add: close_inv_def past_close_def)
  moreover have "\<forall>tot. ctrl s = CAwait tot \<longrightarrow> chan_closed (job s)"
    using cl by (simp add: close_inv_def past_close_def)
  ultimately show ?thesis by blast
qed

theorem close_after_all_workers_witness:
  "run demo_schedule (init demo_job []) = Some demo_final \<and> 1 \<le> jobC demo_job
    \<and> \<not> chan_closed demo_job \<and> ctrl demo_final = CFinished
    \<and> chan_closed (job demo_final) \<and> closes demo_final = 1
    \<and> length (workers demo_final) = 2 \<and> map pc (workers demo_final) = [WExit, WExit]"
proof -
  have c: "1 \<le> jobC demo_job" and n: "\<not> chan_closed demo_job"
    by (simp_all add: demo_job_def chan_closed_def)
  show ?thesis
    using close_after_all_workers [OF demo_run c n] demo_run c n
    by (simp add: demo_final_def past_wait_def past_close_def)
qed

section \<open>The requests made and the results sent\<close>

lemma count_inv_set_worker:
  assumes "count_inv s" "k < length (workers s)" "worker_ok (cancelled s) x"
    "wi x = wi (workers s ! k)"
  shows "count_inv (set_worker k x s)"
proof -
  have "\<forall>y \<in> set ((workers s)[k := x]). worker_ok (cancelled s) y"
    using assms(1,3) set_update_subset_insert [of "workers s" k x]
    by (auto simp: count_inv_def)
  then show ?thesis
    using assms by (simp add: count_inv_def sum_list_map_update)
qed

lemma worker_ok_nth:
  "count_inv s \<Longrightarrow> k < length (workers s) \<Longrightarrow> worker_ok (cancelled s) (workers s ! k)"
  by (simp add: count_inv_def)

lemma count_inv_frame:
  assumes "count_inv s" "workers s' = workers s" "sent s' = sent s" "cancelled s' = cancelled s"
  shows "count_inv s'"
  using assms by (simp add: count_inv_def)

lemma count_inv_worker_step:
  assumes "count_inv s" "k < length (workers s)"
    "worker_step (pc (workers s ! k)) inp k (workers s ! k) s = Some s'"
  shows "count_inv s'"
proof -
  note ok = worker_ok_nth [OF assms(1,2)]
  from assms(3) show ?thesis
  proof (cases rule: worker_step_cases)
    case (Init v)
    show ?thesis unfolding Init(3)
      by (rule count_inv_set_worker [OF assms(1,2)])
        (use ok Init(1) in \<open>simp_all add: worker_ok_def inflight_def in_iteration_def returned_def\<close>)
  next
    case Redirect
    have "count_inv (if DisableRedirects (job s)
          then s\<lparr>shared_client :=
                   map_option (\<lambda>c. c\<lparr>CheckRedirect := Some UseLastResponse\<rparr>) (shared_client s)\<rparr>
          else s)" (is "count_inv ?s1")
      using assms(1) by (simp add: count_inv_def)
    moreover have "workers ?s1 = workers s" "cancelled ?s1 = cancelled s" by simp_all
    ultimately show ?thesis unfolding Redirect(3)
      using ok Redirect(1) assms(2)
      by (intro count_inv_set_worker)
        (simp_all add: worker_ok_def inflight_def in_iteration_def returned_def)
  next
    case Loop
    show ?thesis unfolding Loop(3)
      by (rule count_inv_set_worker [OF assms(1,2)])
        (use ok Loop(1) in \<open>auto simp: worker_ok_def inflight_def in_iteration_def returned_def\<close>)
  next
    case (Gate d)
    show ?thesis unfolding Gate(4)
      by (rule count_inv_set_worker [OF assms(1,2)])
        (use ok Gate(1) in \<open>simp_all add: worker_ok_def inflight_def in_iteration_def returned_def\<close>)
  next
    case (ReqPanic t e)
    then show ?thesis using assms(1) by (simp add: count_inv_def)
  next
    case (Req t req h')
    have "count_inv (s\<lparr>heap := h'\<rparr>)" using assms(1) by (simp add: count_inv_def)
    then show ?thesis unfolding Req(4)
      using ok Req(1) assms(2)
      by (intro count_inv_set_worker)
        (simp_all add: worker_ok_def inflight_def in_iteration_def returned_def)
  next
    case (Do t0 req hooks r t)
    show ?thesis unfolding Do(3)
      by (rule count_inv_set_worker [OF assms(1,2)])
        (use ok Do(1) in \<open>simp_all add: worker_ok_def inflight_def in_iteration_def returned_def\<close>)
  next
    case (SendPanic r)
    then show ?thesis using assms(1) by (simp add: count_inv_def)
  next
    case (Send r s1)
    note eff = send_result_effect [OF Send(3)]
    let ?x = "(workers s ! k)\<lparr>wi := wi (workers s ! k) + 1, pc := WLoop\<rparr>"
    have okx: "worker_ok (cancelled s) ?x"
      using ok Send(1) by (simp add: worker_ok_def inflight_def in_iteration_def returned_def)
    have "\<forall>y \<in> set ((workers s)[k := ?x]). worker_ok (cancelled s) y"
      using assms(1) okx set_update_subset_insert [of "workers s" k ?x]
      by (auto simp: count_inv_def)
    moreover have "sum_list (map wi ((workers s)[k := ?x])) = int (length (sent s)) + 1"
      using assms(1,2) by (simp add: count_inv_def sum_list_map_update)
    ultimately show ?thesis unfolding Send(4)
      by (simp add: count_inv_def eff)
  next
    case RetPanic
    then show ?thesis using assms(1) by (simp add: count_inv_def)
  next
    case Ret
    have "count_inv (s\<lparr>wg := wg s - 1\<rparr>)" using assms(1) by (simp add: count_inv_def)
    then show ?thesis unfolding Ret(4)
      using ok Ret(1) assms(2)
      by (intro count_inv_set_worker)
        (simp_all add: worker_ok_def inflight_def in_iteration_def returned_def)
  qed
qed

lemma worker_ok_cancel: "worker_ok c x \<Longrightarrow> worker_ok True x"
  by (simp add: worker_ok_def)

lemma count_inv_step:
  assumes "count_inv s" "step a s = Some s'"
  shows "count_inv s'"
  using assms(2)
proof (cases rule: step_cases)
  case (Ctrl inp)
  from Ctrl(3) show ?thesis
  proof (cases rule: ctrl_step_cases)
    case (Spawn i left)
    then show ?thesis using assms(1)
      by (simp add: count_inv_def worker_ok_def new_worker_def inflight_def in_iteration_def
          returned_def)
  next
    case (Last i left)
    then show ?thesis using assms(1)
      by (simp add: count_inv_def worker_ok_def new_worker_def inflight_def in_iteration_def
          returned_def)
  qed (use assms(1) in \<open>simp_all add: count_inv_def\<close>)
next
  case (Worker k inp)
  then show ?thesis using count_inv_worker_step [OF assms(1)] by simp
next
  case Reporter
  from Reporter(3) show ?thesis
    by (cases rule: reporter_step_cases) (use assms(1) in \<open>simp_all add: count_inv_def\<close>)
next
  case Cancel
  then show ?thesis using assms(1) worker_ok_cancel by (auto simp: count_inv_def)
qed

lemma count_inv_run:
  assumes "run acts (init w h) = Some s"
  shows "count_inv s"
proof (rule run_invariant [OF assms(1), where P = count_inv])
  show "count_inv (init w h)" by (simp add: count_inv_def init_def)
qed (rule count_inv_step)

lemma step_cancelled:
  assumes "step a s = Some s'" "a \<noteq> Cancel"
  shows "cancelled s' = cancelled s"
  using assms
proof (cases rule: step_cases)
  case (Ctrl inp)
  from Ctrl(3) show ?thesis by (cases rule: ctrl_step_cases) simp_all
next
  case (Worker k inp)
  from Worker(4) show ?thesis
    by (cases rule: worker_step_cases) (simp_all add: send_result_effect split: if_splits)
next
  case Reporter
  from Reporter(3) show ?thesis by (cases rule: reporter_step_cases) simp_all
qed simp

lemma run_not_cancelled:
  assumes "run acts s0 = Some s" "Cancel \<notin> set acts"
  shows "cancelled s = cancelled s0"
  using assms
proof (induction acts arbitrary: s0)
  case Nil
  then show ?case by simp
next
  case (Cons a acts)
  then obtain s1 where s1: "step a s0 = Some s1" "run acts s1 = Some s"
    by (auto split: option.splits)
  have "cancelled s1 = cancelled s0"
    using step_cancelled [OF s1(1)] Cons.prems(2) by auto
  then show ?case using Cons.IH [OF s1(2)] Cons.prems(2) by simp
qed

lemma sum_list_map_cong_int:
  fixes f g :: "'a \<Rightarrow> int"
  shows "(\<And>x. x \<in> set xs \<Longrightarrow> f x = g x) \<Longrightarrow> sum_list (map f xs) = sum_list (map g xs)"
  by (induction xs) simp_all

text \<open>
  C2. In a run with \<open>N \<ge> 0\<close> and \<open>C \<ge> 1\<close> whose context is never cancelled: at every
  moment the results sent on the channel are as many as the completed loop iterations
  of the workers, every call of \<^verbatim>\<open>makeRequest\<close> that has returned has sent one result
  (the calls of a worker are its completed iterations and the one in progress), and no
  more than \<open>N\<close> results have been sent; once \<^verbatim>\<open>wg.Wait()\<close> has returned, the workers
  hold the shares of \<open>N\<close>, each has called \<^verbatim>\<open>makeRequest\<close> once per assigned request,
  and exactly \<open>N\<close> results have been sent.
\<close>

theorem uncancelled_run_sends_N:
  assumes "run acts (init w h) = Some s" and "0 \<le> jobN w" and "1 \<le> jobC w"
    and "Cancel \<notin> set acts"
  shows "int (length (sent s)) = sum_list (map wi (workers s))
    \<and> (\<forall>x \<in> set (workers s). int (calls x) = wi x + int (inflight x))
    \<and> int (length (sent s)) \<le> jobN w
    \<and> (past_wait (ctrl s) \<longrightarrow>
          map wn (workers s) = shares (jobC w) (jobN w)
          \<and> (\<forall>x \<in> set (workers s). wi x = wn x \<and> int (calls x) = wn x)
          \<and> int (length (sent s)) = jobN w)"
proof -
  have sync: "sync_inv (jobC w) (jobN w) s"
    using assms(1,3) by (rule sync_inv_run)
  have cnt: "count_inv s"
    using assms(1) by (rule count_inv_run)
  have nc: "\<not> cancelled s"
    using run_not_cancelled [OF assms(1,4)] by (simp add: init_def)
  have parts: "map wn (workers s) @ pending (jobC w) (jobN w) (ctrl s) = shares (jobC w) (jobN w)"
    using sync by (simp add: sync_inv_def spawn_inv_def)
  have nonneg: "0 \<le> y" if "y \<in> set (shares (jobC w) (jobN w))" for y
    using shares_nonneg [OF assms(2,3) that] .
  have wn_nonneg: "0 \<le> wn x" if "x \<in> set (workers s)" for x
  proof -
    have "wn x \<in> set (map wn (workers s) @ pending (jobC w) (jobN w) (ctrl s))"
      using that by simp
    then show ?thesis using nonneg by (simp only: parts)
  qed
  have ok: "worker_ok False x" if "x \<in> set (workers s)" for x
    using cnt nc that by (simp add: count_inv_def)
  have sum: "sum_list (map wi (workers s)) = int (length (sent s))"
    using cnt by (simp add: count_inv_def)
  have calls: "\<forall>x \<in> set (workers s). int (calls x) = wi x + int (inflight x)"
    using ok by (simp add: worker_ok_def)
  have "sum_list (map wi (workers s)) \<le> sum_list (map wn (workers s))"
    using ok wn_nonneg by (intro sum_list_mono) (fastforce simp: worker_ok_def)
  moreover have "0 \<le> sum_list (pending (jobC w) (jobN w) (ctrl s))"
  proof (rule sum_list_nonneg)
    fix y
    assume "y \<in> set (pending (jobC w) (jobN w) (ctrl s))"
    then have "y \<in> set (map wn (workers s) @ pending (jobC w) (jobN w) (ctrl s))" by simp
    then show "0 \<le> y" using nonneg by (simp only: parts)
  qed
  moreover have "sum_list (map wn (workers s)) + sum_list (pending (jobC w) (jobN w) (ctrl s))
      = jobN w"
    using arg_cong [OF parts, of sum_list] by (simp add: sum_shares)
  ultimately have le: "int (length (sent s)) \<le> jobN w"
    using sum by linarith
  have final: "map wn (workers s) = shares (jobC w) (jobN w)
      \<and> (\<forall>x \<in> set (workers s). wi x = wn x \<and> int (calls x) = wn x)
      \<and> int (length (sent s)) = jobN w" if pw: "past_wait (ctrl s)"
  proof -
    have all: "map wn (workers s) = shares (jobC w) (jobN w)"
      using spawn_inv_all_started(1) [of "jobC w" "jobN w" s] sync assms(3) pw
      by (simp add: sync_inv_def)
    have ex: "pc x = WExit" if "x \<in> set (workers s)" for x
      using sync pw that by (simp add: sync_inv_def exit_inv_def)
    have each: "wi x = wn x \<and> int (calls x) = wn x" if "x \<in> set (workers s)" for x
      using ok [OF that] ex [OF that] wn_nonneg [OF that]
      by (simp add: worker_ok_def returned_def inflight_def)
    have "sum_list (map wi (workers s)) = sum_list (map wn (workers s))"
      using each by (intro sum_list_map_cong_int) simp
    then have "int (length (sent s)) = jobN w"
      using sum all by (simp add: sum_shares)
    with all each show ?thesis by simp
  qed
  show ?thesis
  proof (intro conjI impI)
    show "int (length (sent s)) = sum_list (map wi (workers s))" using sum by simp
    show "\<forall>x \<in> set (workers s). int (calls x) = wi x + int (inflight x)" by (rule calls)
    show "int (length (sent s)) \<le> jobN w" by (rule le)
  qed (use final in blast)+
qed

theorem uncancelled_run_sends_N_witness:
  "run demo_schedule (init demo_job []) = Some demo_final \<and> 0 \<le> jobN demo_job
    \<and> 1 \<le> jobC demo_job \<and> Cancel \<notin> set demo_schedule
    \<and> past_wait (ctrl demo_final) \<and> length (sent demo_final) = 2 \<and> jobN demo_job = 2
    \<and> map calls (workers demo_final) = [1, 1]"
proof -
  have n: "0 \<le> jobN demo_job" and c: "1 \<le> jobC demo_job"
    by (simp_all add: demo_job_def)
  have nc: "Cancel \<notin> set demo_schedule"
    by (simp add: demo_schedule_def)
  show ?thesis
    using uncancelled_run_sends_N [OF demo_run n c nc] demo_run n c nc
    by (simp add: demo_final_def demo_results_def demo_job_def past_wait_def past_close_def)
qed

section \<open>Cancellation\<close>

lemma send_result_cancelled:
  "send_result r (s\<lparr>cancelled := c\<rparr>)
     = map_option (map_option (\<lambda>s'. s'\<lparr>cancelled := c\<rparr>)) (send_result r s)"
  by (simp add: send_result_def split: option.splits)

lemma worker_step_cancelled:
  assumes "in_iteration p"
  shows "worker_step p inp k x (s\<lparr>cancelled := c\<rparr>)
     = map_option (\<lambda>s'. s'\<lparr>cancelled := c\<rparr>) (worker_step p inp k x s)"
proof (cases p)
  case WGate
  then show ?thesis
    by (cases inp) (simp_all add: worker_step_def set_worker_def split: option.splits)
next
  case WReq
  then show ?thesis
    by (cases inp)
      (simp_all add: worker_step_def set_worker_def panics_def split: sum.splits prod.splits)
next
  case (WDo t0 req)
  then show ?thesis
    by (cases inp) (simp_all add: worker_step_def set_worker_def)
next
  case (WSend r)
  then show ?thesis
    by (cases inp)
      (simp_all add: worker_step_def send_result_cancelled set_worker_def panics_def
        split: option.splits)
qed (use assms in \<open>simp_all add: in_iteration_def\<close>)

lemma step_keeps_returned:
  assumes "step a s = Some s'" "k < length (workers s)" "returned (pc (workers s ! k))"
  shows "k < length (workers s') \<and> returned (pc (workers s' ! k))
    \<and> calls (workers s' ! k) = calls (workers s ! k)"
  using assms(1)
proof (cases rule: step_cases)
  case (Ctrl inp)
  from Ctrl(3) show ?thesis
    by (cases rule: ctrl_step_cases) (use assms(2,3) in \<open>simp_all add: nth_append\<close>)
next
  case (Worker j inp)
  show ?thesis
  proof (cases "j = k")
    case True
    from Worker(4) show ?thesis unfolding True
      by (cases rule: worker_step_cases)
        (use assms(2,3) in \<open>simp_all add: returned_def send_result_effect split: if_splits\<close>)
  next
    case False
    from Worker(4) show ?thesis
      by (cases rule: worker_step_cases)
        (use assms(2,3) False in \<open>simp_all add: send_result_effect split: if_splits\<close>)
  qed
next
  case Reporter
  from Reporter(3) show ?thesis
    by (cases rule: reporter_step_cases) (use assms(2,3) in simp_all)
next
  case Cancel
  then show ?thesis using assms(2,3) by simp
qed

lemma run_keeps_returned:
  assumes "run acts s = Some s'" "k < length (workers s)" "returned (pc (workers s ! k))"
  shows "k < length (workers s') \<and> returned (pc (workers s' ! k))
    \<and> calls (workers s' ! k) = calls (workers s ! k)"
  using assms
proof (induction acts arbitrary: s)
  case Nil
  then show ?case by simp
next
  case (Cons a acts)
  then obtain s1 where s1: "step a s = Some s1" "run acts s1 = Some s'"
    by (auto split: option.splits)
  note one = step_keeps_returned [OF s1(1) Cons.prems(2,3)]
  with Cons.IH [OF s1(2)] show ?case by simp
qed

text \<open>
  C5. For the worker \<open>k\<close> of a state \<open>s\<close>:
  \<^item> at the head of an iteration with \<^verbatim>\<open>ctx\<close> cancelled, its step is the return from
    \<^verbatim>\<open>runWorker\<close>: no call of \<^verbatim>\<open>makeRequest\<close> is made and nothing is sent;
  \<^item> at the head of an iteration with requests left and \<^verbatim>\<open>ctx\<close> not cancelled, its step
    leads to the gate when \<^verbatim>\<open>b.QPS > 0\<close> and to \<^verbatim>\<open>makeRequest\<close> otherwise, so the check
    comes before the gate;
  \<^item> inside an iteration (at the gate, before or in \<^verbatim>\<open>makeRequest\<close>) its step does not
    depend on the cancellation: the check is made once per iteration;
  \<^item> with a request in flight, the return of \<^verbatim>\<open>c.Do\<close> leads to the send of the result
    whether \<^verbatim>\<open>ctx\<close> is cancelled or not, and the send on a channel that has room appends
    the result to those sent;
  \<^item> once it has returned, it makes no further call of \<^verbatim>\<open>makeRequest\<close> in any
    continuation of the run.
\<close>

theorem cancellation_checked_at_loop_head:
  assumes "k < length (workers s)" and "crashed s = None"
  shows "(pc (workers s ! k) = WLoop \<and> cancelled s \<longrightarrow>
            step (Worker k Tau) s = Some (set_worker k ((workers s ! k)\<lparr>pc := WRet\<rparr>) s))
    \<and> (pc (workers s ! k) = WLoop \<and> \<not> cancelled s \<and> wi (workers s ! k) < wn (workers s ! k) \<longrightarrow>
            step (Worker k Tau) s = Some (set_worker k
              ((workers s ! k)\<lparr>pc := (if QPS (job s) > 0 then WGate else WReq)\<rparr>) s))
    \<and> (in_iteration (pc (workers s ! k)) \<longrightarrow>
          (\<forall>inp c. step (Worker k inp) (s\<lparr>cancelled := c\<rparr>)
             = map_option (\<lambda>s'. s'\<lparr>cancelled := c\<rparr>) (step (Worker k inp) s)))
    \<and> (\<forall>t0 req hooks r t. pc (workers s ! k) = WDo t0 req \<longrightarrow>
          step (Worker k (Returned hooks r t)) s
            = Some (set_worker k ((workers s ! k)\<lparr>pc := WSend (build_result t0 hooks r t)\<rparr>) s))
    \<and> (\<forall>r ch. pc (workers s ! k) = WSend r \<and> results (job s) = Some ch \<and> \<not> closed ch
            \<and> length (buf ch) < cap ch \<longrightarrow>
          (\<exists>s'. step (Worker k Tau) s = Some s' \<and> sent s' = sent s @ [r]
             \<and> pc (workers s' ! k) = WLoop))
    \<and> (\<forall>acts s'. returned (pc (workers s ! k)) \<and> run acts s = Some s' \<longrightarrow>
          returned (pc (workers s' ! k)) \<and> calls (workers s' ! k) = calls (workers s ! k))"
proof (intro conjI impI allI)
  assume "pc (workers s ! k) = WLoop \<and> cancelled s"
  then show "step (Worker k Tau) s = Some (set_worker k ((workers s ! k)\<lparr>pc := WRet\<rparr>) s)"
    using assms by (simp add: step_def worker_step_def)
next
  assume "pc (workers s ! k) = WLoop \<and> \<not> cancelled s \<and> wi (workers s ! k) < wn (workers s ! k)"
  then show "step (Worker k Tau) s = Some (set_worker k
      ((workers s ! k)\<lparr>pc := (if QPS (job s) > 0 then WGate else WReq)\<rparr>) s)"
    using assms by (simp add: step_def worker_step_def)
next
  fix inp c
  assume "in_iteration (pc (workers s ! k))"
  then show "step (Worker k inp) (s\<lparr>cancelled := c\<rparr>)
      = map_option (\<lambda>s'. s'\<lparr>cancelled := c\<rparr>) (step (Worker k inp) s)"
    using assms by (simp add: step_def worker_step_cancelled)
next
  fix t0 req hooks r t
  assume "pc (workers s ! k) = WDo t0 req"
  then show "step (Worker k (Returned hooks r t)) s
      = Some (set_worker k ((workers s ! k)\<lparr>pc := WSend (build_result t0 hooks r t)\<rparr>) s)"
    using assms by (simp add: step_def worker_step_def)
next
  fix r ch
  assume "pc (workers s ! k) = WSend r \<and> results (job s) = Some ch \<and> \<not> closed ch
      \<and> length (buf ch) < cap ch"
  then show "\<exists>s'. step (Worker k Tau) s = Some s' \<and> sent s' = sent s @ [r]
      \<and> pc (workers s' ! k) = WLoop"
    using assms by (simp add: step_def worker_step_def send_result_def set_worker_def)
next
  fix acts s'
  assume "returned (pc (workers s ! k)) \<and> run acts s = Some s'"
  then show "returned (pc (workers s' ! k))" "calls (workers s' ! k) = calls (workers s ! k)"
    using run_keeps_returned [of acts s s' k] assms(1) by simp_all
qed

theorem cancellation_checked_at_loop_head_witness:
  "0 < length (workers demo_inflight) \<and> crashed demo_inflight = None
    \<and> cancelled demo_inflight \<and> pc (workers demo_inflight ! 0) = WDo 7 demo_request
    \<and> step (Worker 0 (Returned [] (Err ''refused'') 9)) demo_inflight
        = Some (set_worker 0 ((workers demo_inflight ! 0)
             \<lparr>pc := WSend (build_result 7 [] (Err ''refused'') 9)\<rparr>) demo_inflight)
    \<and> 0 < length (workers demo_at_loop) \<and> crashed demo_at_loop = None
    \<and> cancelled demo_at_loop \<and> pc (workers demo_at_loop ! 0) = WLoop
    \<and> wi (workers demo_at_loop ! 0) < wn (workers demo_at_loop ! 0)
    \<and> step (Worker 0 Tau) demo_at_loop
        = Some (set_worker 0 ((workers demo_at_loop ! 0)\<lparr>pc := WRet\<rparr>) demo_at_loop)"
proof -
  have a: "0 < length (workers demo_inflight)" "crashed demo_inflight = None"
    by (simp_all add: demo_inflight_def init_def)
  have b: "0 < length (workers demo_at_loop)" "crashed demo_at_loop = None"
    by (simp_all add: demo_at_loop_def demo_inflight_def init_def)
  have c: "cancelled demo_inflight" "pc (workers demo_inflight ! 0) = WDo 7 demo_request"
    by (simp_all add: demo_inflight_def init_def)
  have d: "cancelled demo_at_loop" "pc (workers demo_at_loop ! 0) = WLoop"
    "wi (workers demo_at_loop ! 0) < wn (workers demo_at_loop ! 0)"
    by (simp_all add: demo_at_loop_def demo_inflight_def init_def)
  show ?thesis
    using cancellation_checked_at_loop_head [OF a] cancellation_checked_at_loop_head [OF b]
      a b c d
    by simp
qed

section \<open>Failed requests\<close>

lemma build_result_Err:
  "err (build_result s hooks (Err e) t) = Some e"
  "statusCode (build_result s hooks (Err e) t) = 0"
  "contentLength (build_result s hooks (Err e) t) = 0"
  by (simp_all add: build_result_def Let_def)

lemma build_result_failed_ok: "failed_ok (build_result s hooks r t)"
  by (cases r) (simp_all add: failed_ok_def build_result_def Let_def)

lemma failed_inv_set_worker:
  assumes "failed_inv s" "\<And>r. pc x = WSend r \<Longrightarrow> failed_ok r"
  shows "failed_inv (set_worker k x s)"
  using assms set_update_subset_insert [of "workers s" k x]
  by (auto simp: failed_inv_def)

lemma failed_inv_step:
  assumes "failed_inv s" "step a s = Some s'"
  shows "failed_inv s'"
  using assms(2)
proof (cases rule: step_cases)
  case (Ctrl inp)
  from Ctrl(3) show ?thesis
    by (cases rule: ctrl_step_cases)
      (use assms(1) in \<open>auto simp: failed_inv_def new_worker_def\<close>)
next
  case (Worker k inp)
  from Worker(4) show ?thesis
  proof (cases rule: worker_step_cases)
    case Redirect
    have "failed_inv (if DisableRedirects (job s)
          then s\<lparr>shared_client :=
                   map_option (\<lambda>c. c\<lparr>CheckRedirect := Some UseLastResponse\<rparr>) (shared_client s)\<rparr>
          else s)"
      using assms(1) by (simp add: failed_inv_def)
    then show ?thesis unfolding Redirect(3) by (rule failed_inv_set_worker) simp
  next
    case (Req t req h')
    have "failed_inv (s\<lparr>heap := h'\<rparr>)" using assms(1) by (simp add: failed_inv_def)
    then show ?thesis unfolding Req(4) by (rule failed_inv_set_worker) simp
  next
    case (Do t0 req hooks r t)
    show ?thesis unfolding Do(3)
      by (rule failed_inv_set_worker [OF assms(1)]) (simp add: build_result_failed_ok)
  next
    case (Send r s1)
    have "failed_ok r"
      using assms(1) Worker(3) Send(1) nth_mem [OF Worker(3)] by (auto simp: failed_inv_def)
    then have "failed_inv s1"
      using assms(1) send_result_effect [OF Send(3)] by (simp add: failed_inv_def)
    then show ?thesis unfolding Send(4) by (rule failed_inv_set_worker) simp
  next
    case Ret
    have "failed_inv (s\<lparr>wg := wg s - 1\<rparr>)" using assms(1) by (simp add: failed_inv_def)
    then show ?thesis unfolding Ret(4) by (rule failed_inv_set_worker) simp
  next
    case (Init v)
    show ?thesis unfolding Init(3) by (rule failed_inv_set_worker [OF assms(1)]) simp
  next
    case Loop
    show ?thesis unfolding Loop(3)
      by (rule failed_inv_set_worker [OF assms(1)]) (simp split: if_splits)
  next
    case (Gate d)
    show ?thesis unfolding Gate(4) by (rule failed_inv_set_worker [OF assms(1)]) simp
  qed (use assms(1) in \<open>simp_all add: failed_inv_def\<close>)
next
  case Reporter
  from Reporter(3) show ?thesis
    by (cases rule: reporter_step_cases) (use assms(1) in \<open>simp_all add: failed_inv_def\<close>)
next
  case Cancel
  then show ?thesis using assms(1) by (simp add: failed_inv_def)
qed

lemma failed_inv_run:
  assumes "run acts (init w h) = Some s"
  shows "failed_inv s"
proof (rule run_invariant [OF assms(1), where P = failed_inv])
  show "failed_inv (init w h)" by (simp add: failed_inv_def init_def)
qed (rule failed_inv_step)

text \<open>
  C8. In every state \<open>s\<close> of a run, every result sent that carries an error has the
  status code 0 and the content length 0. When \<^verbatim>\<open>c.Do\<close> returns the error \<open>e\<close> to the
  worker \<open>k\<close>, the worker goes on to send a result with that error, status code 0 and
  content length 0; the send on a channel that has room appends it to the results
  sent and takes the worker to the head of its loop with \<open>i\<close> incremented, and from
  there, with requests left and \<^verbatim>\<open>ctx\<close> not cancelled, into the next iteration.
\<close>

theorem failed_request_result:
  assumes "run acts (init w h) = Some s"
  shows "(\<forall>r \<in> set (sent s). err r \<noteq> None \<longrightarrow> statusCode r = 0 \<and> contentLength r = 0)
    \<and> (\<forall>k t0 req hooks e t.
          k < length (workers s) \<and> crashed s = None \<and> pc (workers s ! k) = WDo t0 req \<longrightarrow>
          (\<exists>s1 r. step (Worker k (Returned hooks (Err e) t)) s = Some s1
             \<and> pc (workers s1 ! k) = WSend r
             \<and> err r = Some e \<and> statusCode r = 0 \<and> contentLength r = 0
             \<and> (\<forall>ch. results (job s1) = Some ch \<and> \<not> closed ch \<and> length (buf ch) < cap ch \<longrightarrow>
                  (\<exists>s2. step (Worker k Tau) s1 = Some s2 \<and> sent s2 = sent s1 @ [r]
                     \<and> pc (workers s2 ! k) = WLoop
                     \<and> wi (workers s2 ! k) = wi (workers s ! k) + 1
                     \<and> (\<not> cancelled s2 \<and> wi (workers s2 ! k) < wn (workers s2 ! k) \<longrightarrow>
                          (\<exists>s3. step (Worker k Tau) s2 = Some s3
                             \<and> in_iteration (pc (workers s3 ! k))))))))"
proof (intro conjI allI impI ballI)
  fix r
  assume "r \<in> set (sent s)" "err r \<noteq> None"
  then show "statusCode r = 0" "contentLength r = 0"
    using failed_inv_run [OF assms] by (auto simp: failed_inv_def failed_ok_def)
next
  fix k t0 req hooks e t
  assume a: "k < length (workers s) \<and> crashed s = None \<and> pc (workers s ! k) = WDo t0 req"
  define r where "r = build_result t0 hooks (Err e) t"
  define s1 where "s1 = set_worker k ((workers s ! k)\<lparr>pc := WSend r\<rparr>) s"
  have st: "step (Worker k (Returned hooks (Err e) t)) s = Some s1"
    using a by (simp add: step_def worker_step_def s1_def r_def)
  have pc1: "pc (workers s1 ! k) = WSend r" "k < length (workers s1)" "crashed s1 = None"
    "wi (workers s1 ! k) = wi (workers s ! k)"
    using a by (simp_all add: s1_def)
  have cont: "\<exists>s2. step (Worker k Tau) s1 = Some s2 \<and> sent s2 = sent s1 @ [r]
      \<and> pc (workers s2 ! k) = WLoop
      \<and> wi (workers s2 ! k) = wi (workers s ! k) + 1
      \<and> (\<not> cancelled s2 \<and> wi (workers s2 ! k) < wn (workers s2 ! k) \<longrightarrow>
           (\<exists>s3. step (Worker k Tau) s2 = Some s3 \<and> in_iteration (pc (workers s3 ! k))))"
    if ch: "results (job s1) = Some ch \<and> \<not> closed ch \<and> length (buf ch) < cap ch" for ch
  proof -
    define s2 where "s2 = set_worker k ((workers s1 ! k)\<lparr>wi := wi (workers s1 ! k) + 1, pc := WLoop\<rparr>)
        (s1\<lparr>job := (job s1)\<lparr>results := Some (ch\<lparr>buf := buf ch @ [r]\<rparr>)\<rparr>, sent := sent s1 @ [r]\<rparr>)"
    have 2: "step (Worker k Tau) s1 = Some s2"
      using pc1 ch by (simp add: step_def worker_step_def send_result_def s2_def)
    have p2: "pc (workers s2 ! k) = WLoop" "k < length (workers s2)" "crashed s2 = None"
      "wi (workers s2 ! k) = wi (workers s ! k) + 1" "sent s2 = sent s1 @ [r]"
      using pc1 by (simp_all add: s2_def)
    have "\<exists>s3. step (Worker k Tau) s2 = Some s3 \<and> in_iteration (pc (workers s3 ! k))"
      if "\<not> cancelled s2 \<and> wi (workers s2 ! k) < wn (workers s2 ! k)"
      using p2 that by (simp add: step_def worker_step_def in_iteration_def)
    with 2 p2 show ?thesis by blast
  qed
  show "\<exists>s1 r. step (Worker k (Returned hooks (Err e) t)) s = Some s1
     \<and> pc (workers s1 ! k) = WSend r
     \<and> err r = Some e \<and> statusCode r = 0 \<and> contentLength r = 0
     \<and> (\<forall>ch. results (job s1) = Some ch \<and> \<not> closed ch \<and> length (buf ch) < cap ch \<longrightarrow>
          (\<exists>s2. step (Worker k Tau) s1 = Some s2 \<and> sent s2 = sent s1 @ [r]
             \<and> pc (workers s2 ! k) = WLoop
             \<and> wi (workers s2 ! k) = wi (workers s ! k) + 1
             \<and> (\<not> cancelled s2 \<and> wi (workers s2 ! k) < wn (workers s2 ! k) \<longrightarrow>
                  (\<exists>s3. step (Worker k Tau) s2 = Some s3
                     \<and> in_iteration (pc (workers s3 ! k))))))"
  proof (rule exI [of _ s1], rule exI [of _ r], intro conjI)
    show "step (Worker k (Returned hooks (Err e) t)) s = Some s1" by (rule st)
    show "pc (workers s1 ! k) = WSend r" by (rule pc1(1))
    show "err r = Some e" "statusCode r = 0" "contentLength r = 0"
      by (simp_all add: r_def build_result_Err)
    show "\<forall>ch. results (job s1) = Some ch \<and> \<not> closed ch \<and> length (buf ch) < cap ch \<longrightarrow>
          (\<exists>s2. step (Worker k Tau) s1 = Some s2 \<and> sent s2 = sent s1 @ [r]
             \<and> pc (workers s2 ! k) = WLoop
             \<and> wi (workers s2 ! k) = wi (workers s ! k) + 1
             \<and> (\<not> cancelled s2 \<and> wi (workers s2 ! k) < wn (workers s2 ! k) \<longrightarrow>
                  (\<exists>s3. step (Worker k Tau) s2 = Some s3
                     \<and> in_iteration (pc (workers s3 ! k)))))"
      using cont by (intro allI impI)
  qed
qed

theorem failed_request_result_witness:
  "run demo_schedule (init demo_job []) = Some demo_final
    \<and> hd (sent demo_final) = build_result 8 [] (Err ''refused'') 9
    \<and> err (hd (sent demo_final)) = Some ''refused''
    \<and> statusCode (hd (sent demo_final)) = 0 \<and> contentLength (hd (sent demo_final)) = 0"
  using failed_request_result [OF demo_run] demo_run
  by (simp add: demo_final_def demo_results_def build_result_def locals0_def)

end
